theory Spec2Isabelle
  imports Main
begin

section \<open>Rows, cells and JavaScript values\<close>

text \<open>
  A sheet is what \<^verbatim>\<open>spreadsheets.values.get\<close> returns for it: an ordered sequence of
  rows, each an ordered sequence of strings; row 0 is the header. A string is a list of
  code units (the one non-ASCII character of the sources, the i-acute of the marker
  written by the allocator, is the unit 0xED).
\<close>

type_synonym row = "string list"
type_synonym sheet = "row list"

text \<open>\<^verbatim>\<open>row[i]\<close>: \<open>None\<close> is JavaScript's \<^verbatim>\<open>undefined\<close> of an index out of range.\<close>

definition cell :: "row \<Rightarrow> nat \<Rightarrow> string option" where
  "cell r i = (if i < length r then Some (r ! i) else None)"

text \<open>Truthiness of a cell: \<^verbatim>\<open>undefined\<close> and the empty string are falsy.\<close>

definition truthy :: "string option \<Rightarrow> bool" where
  "truthy c = (case c of None \<Rightarrow> False | Some v \<Rightarrow> v \<noteq> [])"

text \<open>\<^verbatim>\<open>c || ""\<close>\<close>

definition or_empty :: "string option \<Rightarrow> string" where
  "or_empty c = (case c of None \<Rightarrow> [] | Some v \<Rightarrow> v)"

text \<open>\<^verbatim>\<open>c ?? d\<close>\<close>

definition nullish :: "string option \<Rightarrow> string \<Rightarrow> string" where
  "nullish c d = (case c of None \<Rightarrow> d | Some v \<Rightarrow> v)"

text \<open>
  \<^verbatim>\<open>rows.findIndex((row, i) => p)\<close>: the first index whose row satisfies the callback,
  \<open>None\<close> for the source's \<^verbatim>\<open>-1\<close>.
\<close>

fun findIndex_from :: "(row \<Rightarrow> nat \<Rightarrow> bool) \<Rightarrow> sheet \<Rightarrow> nat \<Rightarrow> nat option" where
  "findIndex_from p [] i = None"
| "findIndex_from p (r # rs) i = (if p r i then Some i else findIndex_from p rs (Suc i))"

definition findIndex :: "(row \<Rightarrow> nat \<Rightarrow> bool) \<Rightarrow> sheet \<Rightarrow> nat option" where
  "findIndex p rows = findIndex_from p rows 0"

text \<open>
  \<^verbatim>\<open>String.prototype.trim\<close>: strips white space and line terminators at both ends (those
  of the code units below 0x100).
\<close>

definition is_space :: "char \<Rightarrow> bool" where
  "is_space c = (c \<in> set [CHR 0x09, CHR 0x0A, CHR 0x0B, CHR 0x0C, CHR 0x0D, CHR 0x20, CHR 0xA0])"

definition trim :: "string \<Rightarrow> string" where
  "trim v = rev (dropWhile is_space (rev (dropWhile is_space v)))"

section \<open>Errors and entities\<close>

text \<open>
  The classes of \<^verbatim>\<open>utils/errors\<close> that the services throw, with \<open>StoreError\<close> for a
  rejected call of the Sheets client (a transport or authentication failure) and
  \<open>SheetNotFound\<close> for the plain \<^verbatim>\<open>Error\<close> of \<^verbatim>\<open>getSheetId\<close>, and \<open>WriteTimeout\<close>
  for the \<^verbatim>\<open>AppError("Write operation timed out", 503)\<close> of the write lock.
\<close>

datatype error =
    NotFoundError string
  | ConflictError string
  | NoTicketsError
  | StoreError
  | SheetNotFound
  | WriteTimeout

record Ticket =
  t_ticket :: string
  t_status :: string

record Order =
  uuid :: string
  ticket :: string
  numero_oab :: string
  nome_completo :: string
  subsecao :: string
  data_solicitacao :: string
  data_liberacao :: string
  status :: string
  anotacoes :: string

record Conflict =
  existing_ticket :: string
  existing_date :: string

record CreateOrderResult =
  order :: Order
  conflict :: "Conflict option"

text \<open>
  \<^verbatim>\<open>CreateOrderData\<close>; the optional fields are read with \<^verbatim>\<open>?.\<close> and \<^verbatim>\<open>||\<close>, so they
  may be absent.
\<close>

record CreateOrderData =
  c_numero_oab :: "string option"
  c_nome_completo :: string
  c_subsecao :: "string option"
  c_anotacoes :: "string option"

text \<open>\<^verbatim>\<open>UpdateOrderData = Partial<Omit<Order, "uuid">>\<close>\<close>

record UpdateOrderData =
  u_ticket :: "string option"
  u_numero_oab :: "string option"
  u_nome_completo :: "string option"
  u_subsecao :: "string option"
  u_data_solicitacao :: "string option"
  u_data_liberacao :: "string option"
  u_status :: "string option"
  u_anotacoes :: "string option"

section \<open>The external store and the module state\<close>

datatype sheet_name = Tickets | Pedidos

text \<open>
  The calls the services make on the Sheets client: \<^verbatim>\<open>values.get\<close> of a sheet's range,
  \<^verbatim>\<open>values.append\<close> of one row, \<^verbatim>\<open>values.update\<close> of the cells that start at a
  (0-based) row and column, \<^verbatim>\<open>batchUpdate\<close> with one \<^verbatim>\<open>deleteDimension\<close>, and
  \<^verbatim>\<open>spreadsheets.get\<close> of the sheet properties.
\<close>

datatype request =
    ValuesGet sheet_name
  | ValuesAppend sheet_name row
  | ValuesUpdate sheet_name nat nat "string list"
  | DeleteRow sheet_name nat
  | GetProperties

text \<open>
  What the environment does to one call: whether it rejects, and how many milliseconds
  pass until it settles.
\<close>

record reply =
  fails :: bool
  elapsed :: nat

text \<open>
  The state of the process and of its collaborators. The two sheets, the identifiers
  the spreadsheet gives them (\<open>None\<close>: no sheet of that title), the replies of the
  coming store calls in order (when the list is exhausted a call succeeds at once), the
  log of the calls made, and \<^verbatim>\<open>Date.now()\<close>; then the module variables \<^verbatim>\<open>cache\<close>,
  \<^verbatim>\<open>cacheTime\<close> and \<^verbatim>\<open>cachedSheetId\<close> of the tickets and of the orders service.
  The client and the spreadsheet id of \<^verbatim>\<open>config/sheets\<close> are configured, so
  \<^verbatim>\<open>getSheetsClient\<close> and \<^verbatim>\<open>getSpreadsheetId\<close> return.
\<close>

record state =
  tickets_sheet :: sheet
  pedidos_sheet :: sheet
  tickets_sheetId :: "nat option"
  pedidos_sheetId :: "nat option"
  replies :: "reply list"
  requests :: "request list"
  clock :: int
  tickets_cache :: "Ticket list option"
  tickets_cacheTime :: int
  tickets_cachedSheetId :: "nat option"
  orders_cache :: "Order list option"
  orders_cacheTime :: int
  orders_cachedSheetId :: "nat option"

definition CACHE_TTL :: int where
  "CACHE_TTL = 5 * 60 * 1000"

text \<open>
  A service function is a function from the state before the call to its outcome and the
  state after it: \<open>Inl\<close> is the exception it throws, \<open>Inr\<close> the value of its promise. The
  write operations run under the write lock of their service, which runs them one at a
  time; so nothing else runs between the store calls of one operation. A rejected store
  call changes no sheet. A cell that was written empty stays in its row; the services
  read an empty and an absent cell alike.
\<close>

text \<open>One call of the client: it is logged, consumes its reply, and time passes.\<close>

definition store_call :: "request \<Rightarrow> state \<Rightarrow> bool \<times> state" where
  "store_call q s =
     (case replies s of
        [] \<Rightarrow> (True, s\<lparr>requests := requests s @ [q]\<rparr>)
      | r # rs \<Rightarrow>
          (\<not> fails r,
           s\<lparr>replies := rs, requests := requests s @ [q], clock := clock s + int (elapsed r)\<rparr>))"

definition get_sheet :: "sheet_name \<Rightarrow> state \<Rightarrow> sheet" where
  "get_sheet n s = (case n of Tickets \<Rightarrow> tickets_sheet s | Pedidos \<Rightarrow> pedidos_sheet s)"

definition put_sheet :: "sheet_name \<Rightarrow> sheet \<Rightarrow> state \<Rightarrow> state" where
  "put_sheet n rows s =
     (case n of Tickets \<Rightarrow> s\<lparr>tickets_sheet := rows\<rparr> | Pedidos \<Rightarrow> s\<lparr>pedidos_sheet := rows\<rparr>)"

text \<open>\<^verbatim>\<open>res.data.values || []\<close> of a \<^verbatim>\<open>values.get\<close>.\<close>

definition values_get :: "sheet_name \<Rightarrow> state \<Rightarrow> (error + sheet) \<times> state" where
  "values_get n s =
     (case store_call (ValuesGet n) s of
        (True, s') \<Rightarrow> (Inr (get_sheet n s'), s')
      | (False, s') \<Rightarrow> (Inl StoreError, s'))"

text \<open>\<^verbatim>\<open>values.append\<close>: the row goes after the last row of the sheet.\<close>

definition values_append :: "sheet_name \<Rightarrow> row \<Rightarrow> state \<Rightarrow> (error + unit) \<times> state" where
  "values_append n r s =
     (case store_call (ValuesAppend n r) s of
        (True, s') \<Rightarrow> (Inr (), put_sheet n (get_sheet n s' @ [r]) s')
      | (False, s') \<Rightarrow> (Inl StoreError, s'))"

text \<open>
  Writing the cells \<open>vs\<close> into a row from column \<open>c\<close> on: the cells before stay (a row
  that is too short is filled with empty cells), the cells behind the written ones stay.
\<close>

definition write_cells :: "row \<Rightarrow> nat \<Rightarrow> string list \<Rightarrow> row" where
  "write_cells r c vs = take c (r @ replicate (c - length r) []) @ vs @ drop (c + length vs) r"

text \<open>
  \<^verbatim>\<open>values.update\<close> of the range that starts at row \<open>i\<close> (0-based, so the source's
  \<^verbatim>\<open>rowIndex + 1\<close> in A1 notation) and column \<open>c\<close>. The services only pass an index that
  \<^verbatim>\<open>findIndex\<close> returned; a row beyond the sheet is left out of the model (no change).
\<close>

definition values_update :: "sheet_name \<Rightarrow> nat \<Rightarrow> nat \<Rightarrow> string list \<Rightarrow> state \<Rightarrow> (error + unit) \<times> state" where
  "values_update n i c vs s =
     (case store_call (ValuesUpdate n i c vs) s of
        (True, s') \<Rightarrow>
          (Inr (),
           (let rows = get_sheet n s' in
            if i < length rows then put_sheet n (rows[i := write_cells (rows ! i) c vs]) s' else s'))
      | (False, s') \<Rightarrow> (Inl StoreError, s'))"

text \<open>
  The write operations of both services are \<^verbatim>\<open>return lock.withWriteLock(async () => ...)\<close>.
  Below, the async function is the task of the operation and the operation is the task
  under the lock. The lock (modelled further down with its chain) arms a timer of
  \<^verbatim>\<open>LOCK_TIMEOUT_MS\<close> when the callback starts and does not abort the task: the task runs
  to its end and changes the store as it does. If the thirty seconds have passed when the
  task settles, the timer has fired and has rejected the promise of the caller with the
  timeout failure, and the outcome of the task is dropped (\<^verbatim>\<open>resolve\<close> and \<^verbatim>\<open>reject\<close>
  leave a settled promise alone); otherwise the outcome of the task is what the caller
  gets. Time passes only in store calls. An operation is run here when the lock is free,
  so its callback starts at once. When the task settles at the very millisecond of the
  deadline, the event loop decides between the timer and the task; here the timer wins,
  and the properties below that depend on time ask for less than the thirty seconds.
\<close>

definition LOCK_TIMEOUT_MS :: int where
  "LOCK_TIMEOUT_MS = 30000"

definition under_lock :: "(state \<Rightarrow> (error + 'a) \<times> state) \<Rightarrow> state \<Rightarrow> (error + 'a) \<times> state" where
  "under_lock task s =
     (case task s of
        (r, s') \<Rightarrow> (if LOCK_TIMEOUT_MS \<le> clock s' - clock s then Inl WriteTimeout else r, s'))"

section \<open>The tickets service\<close>

definition tickets_invalidateCache :: "state \<Rightarrow> state" where
  "tickets_invalidateCache s = s\<lparr>tickets_cache := None, tickets_cacheTime := 0\<rparr>"

definition rowToTicket :: "row \<Rightarrow> Ticket" where
  "rowToTicket r = \<lparr>t_ticket = or_empty (cell r 0), t_status = or_empty (cell r 1)\<rparr>"

text \<open>
  The mapping of \<^verbatim>\<open>readAllTickets\<close>: skip the header row, filter out the rows with an
  empty ticket name, decode the rest.
\<close>

definition decode_tickets :: "sheet \<Rightarrow> Ticket list" where
  "decode_tickets rows = map rowToTicket (filter (\<lambda>r. truthy (cell r 0)) (drop 1 rows))"

definition fetch_tickets :: "state \<Rightarrow> (error + Ticket list) \<times> state" where
  "fetch_tickets s =
     (case values_get Tickets s of
        (Inl e, s') \<Rightarrow> (Inl e, s')
      | (Inr rows, s') \<Rightarrow>
          (let tickets = decode_tickets rows
           in (Inr tickets, s'\<lparr>tickets_cache := Some tickets, tickets_cacheTime := clock s'\<rparr>)))"

definition readAllTickets :: "state \<Rightarrow> (error + Ticket list) \<times> state" where
  "readAllTickets s =
     (let now = clock s in
      case tickets_cache s of
        Some c \<Rightarrow> if now - tickets_cacheTime s < CACHE_TTL then (Inr c, s) else fetch_tickets s
      | None \<Rightarrow> fetch_tickets s)"

definition marker :: string where
  "marker = ''Atribu'' @ [CHR 0xED] @ ''do''"

text \<open>The callback of the allocator's \<^verbatim>\<open>findIndex\<close>: \<^verbatim>\<open>i > 0 && row[0] && !row[1]\<close>.\<close>

definition available :: "row \<Rightarrow> nat \<Rightarrow> bool" where
  "available r i = (i > 0 \<and> truthy (cell r 0) \<and> \<not> truthy (cell r 1))"

definition assignAvailableTicket :: "state \<Rightarrow> (error + string) \<times> state" where
  "assignAvailableTicket s =
     (case values_get Tickets s of
        (Inl e, s1) \<Rightarrow> (Inl e, s1)
      | (Inr rows, s1) \<Rightarrow>
          (case findIndex available rows of
             None \<Rightarrow> (Inl NoTicketsError, s1)
           | Some rowIndex \<Rightarrow>
               (let ticket = or_empty (cell (rows ! rowIndex) 0) in
                case values_update Tickets rowIndex 1 [marker] s1 of
                  (Inl e, s2) \<Rightarrow> (Inl e, s2)
                | (Inr _, s2) \<Rightarrow> (Inr ticket, tickets_invalidateCache s2))))"

text \<open>
  \<^verbatim>\<open>getSheetId\<close> of the tickets service: the cached identifier, or the one the
  spreadsheet reports for the title \<^verbatim>\<open>tickets\<close>.
\<close>

definition tickets_getSheetId :: "state \<Rightarrow> (error + nat) \<times> state" where
  "tickets_getSheetId s =
     (case tickets_cachedSheetId s of
        Some i \<Rightarrow> (Inr i, s)
      | None \<Rightarrow>
          (case store_call GetProperties s of
             (False, s') \<Rightarrow> (Inl StoreError, s')
           | (True, s') \<Rightarrow>
               (case tickets_sheetId s' of
                  None \<Rightarrow> (Inl SheetNotFound, s')
                | Some i \<Rightarrow> (Inr i, s'\<lparr>tickets_cachedSheetId := Some i\<rparr>))))"

text \<open>
  \<^verbatim>\<open>batchUpdate\<close> with \<^verbatim>\<open>deleteDimension\<close> of the rows \<open>i\<close> to \<open>i + 1\<close>: the row goes,
  the rows behind it move up.
\<close>

definition delete_row :: "sheet_name \<Rightarrow> nat \<Rightarrow> state \<Rightarrow> (error + unit) \<times> state" where
  "delete_row n i s =
     (case store_call (DeleteRow n i) s of
        (True, s') \<Rightarrow> (Inr (), put_sheet n (take i (get_sheet n s') @ drop (Suc i) (get_sheet n s')) s')
      | (False, s') \<Rightarrow> (Inl StoreError, s'))"

definition createTicket_task :: "string \<Rightarrow> state \<Rightarrow> (error + Ticket) \<times> state" where
  "createTicket_task t s =
     (case readAllTickets (tickets_invalidateCache s) of
        (Inl e, s1) \<Rightarrow> (Inl e, s1)
      | (Inr existing, s1) \<Rightarrow>
          if list_ex (\<lambda>x. t_ticket x = t) existing
          then (Inl (ConflictError ''Ticket already exists''), s1)
          else
            (case values_append Tickets [t, []] s1 of
               (Inl e, s2) \<Rightarrow> (Inl e, s2)
             | (Inr _, s2) \<Rightarrow> (Inr \<lparr>t_ticket = t, t_status = []\<rparr>, tickets_invalidateCache s2)))"

definition createTicket :: "string \<Rightarrow> state \<Rightarrow> (error + Ticket) \<times> state" where
  "createTicket t s = under_lock (createTicket_task t) s"

text \<open>The callback that resolves a row by its first cell: \<^verbatim>\<open>i > 0 && row[0] === key\<close>.\<close>

definition has_key :: "string \<Rightarrow> row \<Rightarrow> nat \<Rightarrow> bool" where
  "has_key k r i = (i > 0 \<and> cell r 0 = Some k)"

definition updateTicket_task :: "string \<Rightarrow> string \<Rightarrow> state \<Rightarrow> (error + Ticket) \<times> state" where
  "updateTicket_task oldTicket newTicket s =
     (case values_get Tickets (tickets_invalidateCache s) of
        (Inl e, s1) \<Rightarrow> (Inl e, s1)
      | (Inr rows, s1) \<Rightarrow>
          (case findIndex (has_key oldTicket) rows of
             None \<Rightarrow> (Inl (NotFoundError ''Ticket''), s1)
           | Some rowIndex \<Rightarrow>
               (let currentStatus = or_empty (cell (rows ! rowIndex) 1) in
                case values_update Tickets rowIndex 0 [newTicket] s1 of
                  (Inl e, s2) \<Rightarrow> (Inl e, s2)
                | (Inr _, s2) \<Rightarrow>
                    (Inr \<lparr>t_ticket = newTicket, t_status = currentStatus\<rparr>,
                     tickets_invalidateCache s2))))"

definition updateTicket :: "string \<Rightarrow> string \<Rightarrow> state \<Rightarrow> (error + Ticket) \<times> state" where
  "updateTicket oldTicket newTicket s = under_lock (updateTicket_task oldTicket newTicket) s"

definition deleteTicket_task :: "string \<Rightarrow> state \<Rightarrow> (error + unit) \<times> state" where
  "deleteTicket_task t s =
     (case values_get Tickets (tickets_invalidateCache s) of
        (Inl e, s1) \<Rightarrow> (Inl e, s1)
      | (Inr rows, s1) \<Rightarrow>
          (case findIndex (has_key t) rows of
             None \<Rightarrow> (Inl (NotFoundError ''Ticket''), s1)
           | Some rowIndex \<Rightarrow>
               (case tickets_getSheetId s1 of
                  (Inl e, s2) \<Rightarrow> (Inl e, s2)
                | (Inr sheetId, s2) \<Rightarrow>
                    (case delete_row Tickets rowIndex s2 of
                       (Inl e, s3) \<Rightarrow> (Inl e, s3)
                     | (Inr _, s3) \<Rightarrow> (Inr (), tickets_invalidateCache s3)))))"

definition deleteTicket :: "string \<Rightarrow> state \<Rightarrow> (error + unit) \<times> state" where
  "deleteTicket t s = under_lock (deleteTicket_task t) s"

section \<open>The orders service\<close>

definition orders_invalidateCache :: "state \<Rightarrow> state" where
  "orders_invalidateCache s = s\<lparr>orders_cache := None, orders_cacheTime := 0\<rparr>"

definition rowToOrder :: "row \<Rightarrow> Order" where
  "rowToOrder r =
     \<lparr>uuid = or_empty (cell r 0),
      ticket = or_empty (cell r 1),
      numero_oab = or_empty (cell r 2),
      nome_completo = or_empty (cell r 3),
      subsecao = or_empty (cell r 4),
      data_solicitacao = or_empty (cell r 5),
      data_liberacao = or_empty (cell r 6),
      status = or_empty (cell r 7),
      anotacoes = or_empty (cell r 8)\<rparr>"

definition orderToRow :: "Order \<Rightarrow> row" where
  "orderToRow o' =
     [uuid o', ticket o', numero_oab o', nome_completo o', subsecao o',
      data_solicitacao o', data_liberacao o', status o', anotacoes o']"

definition decode_orders :: "sheet \<Rightarrow> Order list" where
  "decode_orders rows = map rowToOrder (drop 1 rows)"

definition fetch_orders :: "state \<Rightarrow> (error + Order list) \<times> state" where
  "fetch_orders s =
     (case values_get Pedidos s of
        (Inl e, s') \<Rightarrow> (Inl e, s')
      | (Inr rows, s') \<Rightarrow>
          (let orders = decode_orders rows
           in (Inr orders, s'\<lparr>orders_cache := Some orders, orders_cacheTime := clock s'\<rparr>)))"

definition readAllOrders :: "state \<Rightarrow> (error + Order list) \<times> state" where
  "readAllOrders s =
     (let now = clock s in
      case orders_cache s of
        Some c \<Rightarrow> if now - orders_cacheTime s < CACHE_TTL then (Inr c, s) else fetch_orders s
      | None \<Rightarrow> fetch_orders s)"

definition orders_getSheetId :: "state \<Rightarrow> (error + nat) \<times> state" where
  "orders_getSheetId s =
     (case orders_cachedSheetId s of
        Some i \<Rightarrow> (Inr i, s)
      | None \<Rightarrow>
          (case store_call GetProperties s of
             (False, s') \<Rightarrow> (Inl StoreError, s')
           | (True, s') \<Rightarrow>
               (case pedidos_sheetId s' of
                  None \<Rightarrow> (Inl SheetNotFound, s')
                | Some i \<Rightarrow> (Inr i, s'\<lparr>orders_cachedSheetId := Some i\<rparr>))))"

text \<open>
  What \<^verbatim>\<open>createOrder\<close> takes from its environment: \<^verbatim>\<open>crypto.randomUUID()\<close> and the two
  readings of \<^verbatim>\<open>nowBR()\<close>.
\<close>

record CreateOrderEnv =
  randomUUID :: string
  nowBR_solicitacao :: string
  nowBR_liberacao :: string

text \<open>\<^verbatim>\<open>data.numero_oab?.trim() || ""\<close>\<close>

definition normalize_oab :: "string option \<Rightarrow> string" where
  "normalize_oab v = or_empty (map_option trim v)"

text \<open>
  \<^verbatim>\<open>normalizedOab ? existing.find((o) => o.numero_oab.trim() === normalizedOab) : undefined\<close>
\<close>

definition find_duplicate :: "string \<Rightarrow> Order list \<Rightarrow> Order option" where
  "find_duplicate normalizedOab existing =
     (if normalizedOab \<noteq> [] then find (\<lambda>x. trim (numero_oab x) = normalizedOab) existing else None)"

text \<open>
  The allocator as \<^verbatim>\<open>createOrder\<close> calls it: a \<^verbatim>\<open>NoTicketsError\<close> is thrown on, any
  other failure is replaced by a new \<^verbatim>\<open>NoTicketsError\<close>.
\<close>

definition allocate :: "state \<Rightarrow> (error + string) \<times> state" where
  "allocate s =
     (case assignAvailableTicket s of
        (Inl e, s') \<Rightarrow> (case e of NoTicketsError \<Rightarrow> (Inl e, s') | _ \<Rightarrow> (Inl NoTicketsError, s'))
      | (Inr t, s') \<Rightarrow> (Inr t, s'))"

text \<open>
  The first half of \<^verbatim>\<open>createOrder\<close>: the duplicate check and the ticket. It returns
  \<^verbatim>\<open>existingOrder\<close> and \<^verbatim>\<open>ticket\<close>.
\<close>

definition createOrder_ticket :: "CreateOrderData \<Rightarrow> state \<Rightarrow> (error + Order option \<times> string) \<times> state" where
  "createOrder_ticket data s =
     (case readAllOrders (orders_invalidateCache s) of
        (Inl e, s1) \<Rightarrow> (Inl e, s1)
      | (Inr existing, s1) \<Rightarrow>
          (let normalizedOab = normalize_oab (c_numero_oab data);
               existingOrder = find_duplicate normalizedOab existing;
               duplicateOab = (existingOrder \<noteq> None)
           in if \<not> duplicateOab
              then (case allocate s1 of
                      (Inl e, s2) \<Rightarrow> (Inl e, s2)
                    | (Inr t, s2) \<Rightarrow> (Inr (existingOrder, t), s2))
              else (Inr (existingOrder, []), s1)))"

definition new_order :: "CreateOrderData \<Rightarrow> CreateOrderEnv \<Rightarrow> Order option \<Rightarrow> string \<Rightarrow> Order" where
  "new_order data env existingOrder t =
     \<lparr>uuid = randomUUID env,
      ticket = t,
      numero_oab = normalize_oab (c_numero_oab data),
      nome_completo = c_nome_completo data,
      subsecao = or_empty (c_subsecao data),
      data_solicitacao = nowBR_solicitacao env,
      data_liberacao = nowBR_liberacao env,
      status = (if existingOrder \<noteq> None then ''Recusado'' else ''Aprovado''),
      anotacoes = or_empty (c_anotacoes data)\<rparr>"

definition createOrder_task :: "CreateOrderData \<Rightarrow> CreateOrderEnv \<Rightarrow> state \<Rightarrow> (error + CreateOrderResult) \<times> state" where
  "createOrder_task data env s =
     (case createOrder_ticket data s of
        (Inl e, s2) \<Rightarrow> (Inl e, s2)
      | (Inr (existingOrder, t), s2) \<Rightarrow>
          (let order' = new_order data env existingOrder t in
           case values_append Pedidos (orderToRow order') s2 of
             (Inl e, s3) \<Rightarrow> (Inl e, s3)
           | (Inr _, s3) \<Rightarrow>
               (Inr \<lparr>order = order',
                     conflict = map_option
                       (\<lambda>x. \<lparr>existing_ticket = ticket x, existing_date = data_solicitacao x\<rparr>)
                       existingOrder\<rparr>,
                orders_invalidateCache s3)))"

definition createOrder :: "CreateOrderData \<Rightarrow> CreateOrderEnv \<Rightarrow> state \<Rightarrow> (error + CreateOrderResult) \<times> state" where
  "createOrder data env s = under_lock (createOrder_task data env) s"

definition merge_order :: "Order \<Rightarrow> UpdateOrderData \<Rightarrow> Order" where
  "merge_order existing data =
     \<lparr>uuid = uuid existing,
      ticket = nullish (u_ticket data) (ticket existing),
      numero_oab = nullish (u_numero_oab data) (numero_oab existing),
      nome_completo = nullish (u_nome_completo data) (nome_completo existing),
      subsecao = nullish (u_subsecao data) (subsecao existing),
      data_solicitacao = nullish (u_data_solicitacao data) (data_solicitacao existing),
      data_liberacao = nullish (u_data_liberacao data) (data_liberacao existing),
      status = nullish (u_status data) (status existing),
      anotacoes = nullish (u_anotacoes data) (anotacoes existing)\<rparr>"

definition updateOrder_task :: "string \<Rightarrow> UpdateOrderData \<Rightarrow> state \<Rightarrow> (error + Order) \<times> state" where
  "updateOrder_task uuid' data s =
     (case values_get Pedidos (orders_invalidateCache s) of
        (Inl e, s1) \<Rightarrow> (Inl e, s1)
      | (Inr rows, s1) \<Rightarrow>
          (case findIndex (has_key uuid') rows of
             None \<Rightarrow> (Inl (NotFoundError ''Order''), s1)
           | Some rowIndex \<Rightarrow>
               (let existing = rowToOrder (rows ! rowIndex);
                    updated = merge_order existing data
                in case values_update Pedidos rowIndex 0 (orderToRow updated) s1 of
                     (Inl e, s2) \<Rightarrow> (Inl e, s2)
                   | (Inr _, s2) \<Rightarrow> (Inr updated, orders_invalidateCache s2))))"

definition updateOrder :: "string \<Rightarrow> UpdateOrderData \<Rightarrow> state \<Rightarrow> (error + Order) \<times> state" where
  "updateOrder uuid' data s = under_lock (updateOrder_task uuid' data) s"

definition deleteOrder_task :: "string \<Rightarrow> state \<Rightarrow> (error + unit) \<times> state" where
  "deleteOrder_task uuid' s =
     (case values_get Pedidos (orders_invalidateCache s) of
        (Inl e, s1) \<Rightarrow> (Inl e, s1)
      | (Inr rows, s1) \<Rightarrow>
          (case findIndex (has_key uuid') rows of
             None \<Rightarrow> (Inl (NotFoundError ''Order''), s1)
           | Some rowIndex \<Rightarrow>
               (case orders_getSheetId s1 of
                  (Inl e, s2) \<Rightarrow> (Inl e, s2)
                | (Inr sheetId, s2) \<Rightarrow>
                    (case delete_row Pedidos rowIndex s2 of
                       (Inl e, s3) \<Rightarrow> (Inl e, s3)
                     | (Inr _, s3) \<Rightarrow> (Inr (), orders_invalidateCache s3)))))"

definition deleteOrder :: "string \<Rightarrow> state \<Rightarrow> (error + unit) \<times> state" where
  "deleteOrder uuid' s = under_lock (deleteOrder_task uuid') s"

section \<open>Store outcomes and example states\<close>

text \<open>The coming \<open>n\<close> store calls succeed.\<close>

definition next_ok :: "nat \<Rightarrow> state \<Rightarrow> bool" where
  "next_ok n s = list_all (\<lambda>r. \<not> fails r) (take n (replies s))"

text \<open>
  A store with one assigned ticket, two available ones and no order yet; no cache is
  filled and every store call succeeds.
\<close>

definition demo_state :: state where
  "demo_state =
     \<lparr>tickets_sheet =
        [[''ticket'', ''status''], [''11111111111'', marker], [''68637750800''], [''22222222222'', []]],
      pedidos_sheet =
        [[''uuid'', ''ticket'', ''numero_oab'', ''nome_completo'', ''subsecao'',
          ''data_solicitacao'', ''data_liberacao'', ''status'', ''anotacoes'']],
      tickets_sheetId = Some 0,
      pedidos_sheetId = Some 1,
      replies = [],
      requests = [],
      clock = 0,
      tickets_cache = None,
      tickets_cacheTime = 0,
      tickets_cachedSheetId = None,
      orders_cache = None,
      orders_cacheTime = 0,
      orders_cachedSheetId = None\<rparr>"

text \<open>The same store after one order, and an update that carries a status only.\<close>

definition demo_orders :: state where
  "demo_orders =
     demo_state\<lparr>pedidos_sheet :=
        [[''uuid'', ''ticket'', ''numero_oab'', ''nome_completo'', ''subsecao'',
          ''data_solicitacao'', ''data_liberacao'', ''status'', ''anotacoes''],
         [''u-1'', ''11111111111'', ''123'', ''Ana'', [], ''2024-01-01 10:00:00'',
          ''2024-01-01 10:00:01'', ''Pendente'']]\<rparr>"

definition only_status :: UpdateOrderData where
  "only_status =
     \<lparr>u_ticket = None, u_numero_oab = None, u_nome_completo = None, u_subsecao = None,
      u_data_solicitacao = None, u_data_liberacao = None, u_status = Some ''Aprovado'',
      u_anotacoes = None\<rparr>"

text \<open>The cache of a service holds a snapshot that is younger than the five minutes.\<close>

definition orders_fresh :: "state \<Rightarrow> bool" where
  "orders_fresh s = (orders_cache s \<noteq> None \<and> clock s - orders_cacheTime s < 5 * 60 * 1000)"

definition tickets_fresh :: "state \<Rightarrow> bool" where
  "tickets_fresh s = (tickets_cache s \<noteq> None \<and> clock s - tickets_cacheTime s < 5 * 60 * 1000)"

text \<open>
  The store with a snapshot of the orders taken 299999 ms ago, and a tickets sheet with a
  blank row between the header and a ticket.
\<close>

definition demo_cached :: state where
  "demo_cached = demo_orders\<lparr>clock := 300999, orders_cache := Some [], orders_cacheTime := 1000\<rparr>"

definition demo_gap :: state where
  "demo_gap = demo_state\<lparr>tickets_sheet := [[''ticket'', ''status''], [], [''68637750800'']]\<rparr>"

section \<open>Vocabulary of the properties\<close>

text \<open>
  A row that holds a ticket nobody has: a non-empty ticket cell and an empty status cell;
  and the tickets of these rows after the header, in row order.
\<close>

definition unassigned :: "row \<Rightarrow> bool" where
  "unassigned r = (truthy (cell r 0) \<and> \<not> truthy (cell r 1))"

definition avail :: "sheet \<Rightarrow> string list" where
  "avail rows = map (\<lambda>r. or_empty (cell r 0)) (filter unassigned (drop 1 rows))"

text \<open>The coming store call number \<open>k\<close> (from 0) is rejected.\<close>

definition fails_at :: "nat \<Rightarrow> state \<Rightarrow> bool" where
  "fails_at k s = (k < length (replies s) \<and> fails (replies s ! k))"

text \<open>The state in which \<^verbatim>\<open>createOrder\<close> has made its fresh read of the orders.\<close>

definition after_orders_read :: "state \<Rightarrow> state" where
  "after_orders_read s = snd (readAllOrders (orders_invalidateCache s))"

text \<open>
  What the allocator returned inside one \<^verbatim>\<open>createOrder\<close>, read off the first half of the
  call: a ticket when there was no duplicate and the allocator succeeded.
\<close>

definition allocated :: "(error + Order option \<times> string) \<Rightarrow> string list" where
  "allocated r = (case r of Inr (None, t) \<Rightarrow> [t] | _ \<Rightarrow> [])"

text \<open>
  Order creations run one at a time, each on the state the one before left: the tickets
  the allocator returned, in order, and the final state.
\<close>

fun create_all :: "(CreateOrderData \<times> CreateOrderEnv) list \<Rightarrow> state \<Rightarrow> string list \<times> state" where
  "create_all [] s = ([], s)"
| "create_all ((data, env) # cs) s =
     (let ts = allocated (fst (createOrder_ticket data s));
          s' = snd (createOrder data env s);
          (us, s'') = create_all cs s'
      in (ts @ us, s''))"

text \<open>A request without OAB number, and the identifier and time stamps of one call.\<close>

definition demo_data :: CreateOrderData where
  "demo_data = \<lparr>c_numero_oab = None, c_nome_completo = ''Joao'', c_subsecao = None, c_anotacoes = None\<rparr>"

definition demo_env :: CreateOrderEnv where
  "demo_env = \<lparr>randomUUID = ''u-2'', nowBR_solicitacao = ''2024-01-02 09:00:00'',
               nowBR_liberacao = ''2024-01-02 09:00:00''\<rparr>"

text \<open>
  The order that \<^verbatim>\<open>createOrder\<close> writes for a ticket and a status: the identifier and
  the time stamps of the call, the trimmed OAB number, the other fields of the request.
\<close>

definition order_of :: "CreateOrderData \<Rightarrow> CreateOrderEnv \<Rightarrow> string \<Rightarrow> string \<Rightarrow> Order" where
  "order_of data env t st =
     \<lparr>uuid = randomUUID env,
      ticket = t,
      numero_oab = normalize_oab (c_numero_oab data),
      nome_completo = c_nome_completo data,
      subsecao = or_empty (c_subsecao data),
      data_solicitacao = nowBR_solicitacao env,
      data_liberacao = nowBR_liberacao env,
      status = st,
      anotacoes = or_empty (c_anotacoes data)\<rparr>"

text \<open>A request whose OAB number, once trimmed, is the one of the order in the sheet.\<close>

definition demo_dup :: CreateOrderData where
  "demo_dup = \<lparr>c_numero_oab = Some '' 123 '', c_nome_completo = ''B'', c_subsecao = None, c_anotacoes = None\<rparr>"

text \<open>The store when every ticket is assigned.\<close>

definition demo_exhausted :: state where
  "demo_exhausted = demo_state\<lparr>tickets_sheet := [[''ticket'', ''status''], [''11111111111'', marker]]\<rparr>"

text \<open>The store when every ticket is assigned and the tickets sheet has a blank row.\<close>

definition demo_full :: state where
  "demo_full =
     demo_state\<lparr>tickets_sheet :=
       [[''ticket'', ''status''], [''11111111111'', marker], [], [''22222222222'', marker]]\<rparr>"

text \<open>
  The store calls an operation made between two states, and whether one of them was
  rejected; an operation stops at the first rejected call, so that one is the last.
\<close>

definition calls_made :: "state \<Rightarrow> state \<Rightarrow> nat" where
  "calls_made s s' = length (requests s') - length (requests s)"

definition some_call_failed :: "state \<Rightarrow> state \<Rightarrow> bool" where
  "some_call_failed s s' = list_ex (\<lambda>k. fails_at k s) [0..<calls_made s s']"

text \<open>The request addresses the tickets sheet.\<close>

definition on_tickets :: "request \<Rightarrow> bool" where
  "on_tickets q =
     (case q of ValuesGet n \<Rightarrow> n = Tickets | ValuesAppend n r \<Rightarrow> n = Tickets
      | ValuesUpdate n i c vs \<Rightarrow> n = Tickets | DeleteRow n i \<Rightarrow> n = Tickets
      | GetProperties \<Rightarrow> False)"

text \<open>The store when the first coming call succeeds and the second is rejected.\<close>

definition demo_outage :: state where
  "demo_outage = demo_state\<lparr>replies := [\<lparr>fails = False, elapsed = 120\<rparr>, \<lparr>fails = True, elapsed = 80\<rparr>]\<rparr>"

text \<open>The kind of a request.\<close>

definition is_append :: "request \<Rightarrow> bool" where
  "is_append q = (case q of ValuesAppend n r \<Rightarrow> True | _ \<Rightarrow> False)"

definition is_update :: "request \<Rightarrow> bool" where
  "is_update q = (case q of ValuesUpdate n i c vs \<Rightarrow> True | _ \<Rightarrow> False)"

definition is_delete :: "request \<Rightarrow> bool" where
  "is_delete q = (case q of DeleteRow n i \<Rightarrow> True | _ \<Rightarrow> False)"

text \<open>The store with one order when the first coming call succeeds and the second is rejected.\<close>

definition demo_orders_outage :: state where
  "demo_orders_outage =
     demo_orders\<lparr>replies := [\<lparr>fails = False, elapsed = 120\<rparr>, \<lparr>fails = True, elapsed = 80\<rparr>]\<rparr>"

text \<open>
  The store with one order when the first three coming calls succeed and the fourth is
  rejected.
\<close>

definition demo_append_outage :: state where
  "demo_append_outage =
     demo_orders\<lparr>replies := [\<lparr>fails = False, elapsed = 120\<rparr>, \<lparr>fails = False, elapsed = 90\<rparr>,
                             \<lparr>fails = False, elapsed = 100\<rparr>, \<lparr>fails = True, elapsed = 80\<rparr>]\<rparr>"

text \<open>
  What the caller of an operation under the lock gets when its task fails with \<open>e\<close>,
  between the state before and the state after: the failure of the task when the
  operation settled before the thirty seconds had passed, the timeout failure when they
  had passed before it settled, and one of the two at the very deadline.
\<close>

definition delivered :: "state \<Rightarrow> state \<Rightarrow> (error + 'a) \<Rightarrow> error \<Rightarrow> bool" where
  "delivered s s' r e =
     ((r = Inl e \<or> r = Inl WriteTimeout) \<and>
      (clock s' - clock s < LOCK_TIMEOUT_MS \<longrightarrow> r = Inl e) \<and>
      (LOCK_TIMEOUT_MS < clock s' - clock s \<longrightarrow> r = Inl WriteTimeout))"

section \<open>The write lock\<close>

text \<open>
  A task is the \<^verbatim>\<open>fn\<close> handed to \<^verbatim>\<open>withWriteLock\<close>: an async function. What the lock
  can see of it is how often it suspends at an \<^verbatim>\<open>await\<close> before its promise settles
  (it runs one segment when called and one after each resumption), and what the promise
  settles to: a value or a failure.
\<close>

record 'a task =
  awaits :: nat
  outcome :: "error + 'a"

text \<open>
  One call of \<^verbatim>\<open>withWriteLock\<close> and what it created. The callback given to
  \<^verbatim>\<open>chain.then\<close> is not called yet, or \<^verbatim>\<open>fn\<close> is in flight with so many resumptions
  to go, or the callback has returned; \<open>link\<close> says that the promise which
  \<^verbatim>\<open>chain.then\<close> returned (the new value of \<^verbatim>\<open>chain\<close>) is fulfilled; \<open>result\<close> is the
  promise returned to the caller (\<open>None\<close>: pending); \<open>timer\<close> is the deadline of the
  armed \<^verbatim>\<open>setTimeout\<close>; \<open>fired\<close> says that the timeout callback has run.
\<close>

datatype phase = Queued | Running nat | Finished

record 'a slot =
  fn :: "'a task"
  phase :: phase
  link :: bool
  result :: "(error + 'a) option"
  timer :: "int option"
  fired :: bool

text \<open>
  A lock instance: the calls in the order they were made, the clock, and the segments of
  tasks that have run, each as the number of its call and its place in the task.
\<close>

record 'a lock =
  slots :: "'a slot list"
  now :: int
  trace :: "(nat \<times> nat) list"

text \<open>\<^verbatim>\<open>let chain = Promise.resolve()\<close>: no call yet.\<close>

definition createWriteLock :: "'a lock" where
  "createWriteLock = \<lparr>slots = [], now = 0, trace = []\<rparr>"

text \<open>
  What the event loop can do next: a caller calls \<^verbatim>\<open>withWriteLock\<close>; the chained
  callback of a call is invoked; an awaited operation of a task completes and the task
  resumes; the promise of a task has settled and the callback resumes after
  \<^verbatim>\<open>await fn()\<close>; the chain promise of a call is fulfilled; a timer fires; time passes.
\<close>

datatype 'a event =
    Submit "'a task"
  | Start nat
  | Resume nat
  | Settle nat
  | Chain nat
  | Timeout nat
  | Tick nat

text \<open>
  The synchronous part of \<^verbatim>\<open>withWriteLock(fn)\<close>: a pending result promise, and the
  callback registered behind the current \<^verbatim>\<open>chain\<close>.
\<close>

definition withWriteLock :: "'a task \<Rightarrow> 'a lock \<Rightarrow> 'a lock" where
  "withWriteLock f l =
     l\<lparr>slots := slots l @
        [\<lparr>fn = f, phase = Queued, link = False, result = None, timer = None, fired = False\<rparr>]\<rparr>"

text \<open>\<^verbatim>\<open>resolve\<close> and \<^verbatim>\<open>reject\<close> settle a pending promise and leave a settled one alone.\<close>

definition settle :: "(error + 'a) \<Rightarrow> 'a slot \<Rightarrow> 'a slot" where
  "settle v sl = (case result sl of None \<Rightarrow> sl\<lparr>result := Some v\<rparr> | Some w \<Rightarrow> sl)"

text \<open>
  The promise that \<^verbatim>\<open>chain\<close> held when call \<open>k\<close> was made is fulfilled: the initial
  \<^verbatim>\<open>Promise.resolve()\<close> for the first call, the link of the call before otherwise.
\<close>

definition chain_fulfilled :: "nat \<Rightarrow> 'a lock \<Rightarrow> bool" where
  "chain_fulfilled k l = (case k of 0 \<Rightarrow> True | Suc j \<Rightarrow> link (slots l ! j))"

text \<open>
  One event; \<open>None\<close> when it cannot happen in this state. The callback of a call
  starts only when the promise it was chained to is fulfilled; it arms the timer and calls
  \<^verbatim>\<open>fn\<close>, which runs its first segment. When the promise of \<^verbatim>\<open>fn\<close> has settled the
  callback passes the value to \<^verbatim>\<open>resolve\<close> or the failure to \<^verbatim>\<open>reject\<close>, clears the
  timer and returns, whatever the outcome was (\<^verbatim>\<open>try\<close>/\<^verbatim>\<open>catch\<close>/\<^verbatim>\<open>finally\<close>); then
  its chain promise is fulfilled. An armed timer whose deadline has passed rejects the
  result with the timeout failure.
\<close>

definition step :: "'a event \<Rightarrow> 'a lock \<Rightarrow> 'a lock option" where
  "step e l =
     (case e of
        Submit f \<Rightarrow> Some (withWriteLock f l)
      | Tick d \<Rightarrow> Some (l\<lparr>now := now l + int d\<rparr>)
      | Start k \<Rightarrow>
          if k < length (slots l) \<and> phase (slots l ! k) = Queued \<and> chain_fulfilled k l
          then Some (l\<lparr>slots := (slots l)[k := (slots l ! k)
                         \<lparr>phase := Running (awaits (fn (slots l ! k))),
                          timer := Some (now l + LOCK_TIMEOUT_MS)\<rparr>],
                       trace := trace l @ [(k, 0)]\<rparr>)
          else None
      | Resume k \<Rightarrow>
          if k < length (slots l)
          then (case phase (slots l ! k) of
                  Running (Suc n) \<Rightarrow>
                    Some (l\<lparr>slots := (slots l)[k := (slots l ! k)\<lparr>phase := Running n\<rparr>],
                            trace := trace l @ [(k, awaits (fn (slots l ! k)) - n)]\<rparr>)
                | _ \<Rightarrow> None)
          else None
      | Settle k \<Rightarrow>
          if k < length (slots l) \<and> phase (slots l ! k) = Running 0
          then Some (l\<lparr>slots := (slots l)[k := (settle (outcome (fn (slots l ! k))) (slots l ! k))
                         \<lparr>phase := Finished, timer := None\<rparr>]\<rparr>)
          else None
      | Chain k \<Rightarrow>
          if k < length (slots l) \<and> phase (slots l ! k) = Finished \<and> \<not> link (slots l ! k)
          then Some (l\<lparr>slots := (slots l)[k := (slots l ! k)\<lparr>link := True\<rparr>]\<rparr>)
          else None
      | Timeout k \<Rightarrow>
          if k < length (slots l)
          then (case timer (slots l ! k) of
                  Some d \<Rightarrow>
                    if d \<le> now l
                    then Some (l\<lparr>slots := (slots l)[k := (settle (Inl WriteTimeout) (slots l ! k))
                                   \<lparr>timer := None, fired := True\<rparr>]\<rparr>)
                    else None
                | None \<Rightarrow> None)
          else None)"

text \<open>A schedule: events one after the other.\<close>

fun run :: "'a event list \<Rightarrow> 'a lock \<Rightarrow> 'a lock option" where
  "run [] l = Some l"
| "run (e # es) l = (case step e l of None \<Rightarrow> None | Some l' \<Rightarrow> run es l')"

text \<open>
  The segments that a call has run so far, and those of a list of calls in the order of
  the calls.
\<close>

definition segments :: "nat \<Rightarrow> 'a slot \<Rightarrow> (nat \<times> nat) list" where
  "segments k sl =
     (case phase sl of
        Queued \<Rightarrow> []
      | Running n \<Rightarrow> map (Pair k) [0..<Suc (awaits (fn sl) - n)]
      | Finished \<Rightarrow> map (Pair k) [0..<Suc (awaits (fn sl))])"

fun expected :: "nat \<Rightarrow> 'a slot list \<Rightarrow> (nat \<times> nat) list" where
  "expected k [] = []"
| "expected k (sl # sls) = segments k sl @ expected (Suc k) sls"

text \<open>The invariant of a lock: of each call, of the order of the calls, and of the trace.\<close>

definition good :: "'a slot \<Rightarrow> bool" where
  "good sl =
     ((link sl \<longrightarrow> phase sl = Finished) \<and>
      (\<forall>n. phase sl = Running n \<longrightarrow> n \<le> awaits (fn sl)) \<and>
      result sl =
        (if fired sl then Some (Inl WriteTimeout)
         else if phase sl = Finished then Some (outcome (fn sl)) else None) \<and>
      (fired sl \<longrightarrow> phase sl \<noteq> Queued) \<and>
      (timer sl \<noteq> None \<longrightarrow> \<not> fired sl \<and> (\<exists>n. phase sl = Running n)))"

definition ordered :: "'a slot list \<Rightarrow> bool" where
  "ordered sls = (\<forall>k<length sls. phase (sls ! k) \<noteq> Queued \<longrightarrow> (\<forall>j<k. phase (sls ! j) = Finished))"

definition inv :: "'a lock \<Rightarrow> bool" where
  "inv l = ((\<forall>sl\<in>set (slots l). good sl) \<and> ordered (slots l) \<and> trace l = expected 0 (slots l))"

text \<open>The events that a call still needs, and the events of the chain itself.\<close>

definition work :: "'a slot \<Rightarrow> nat" where
  "work sl =
     (case phase sl of Queued \<Rightarrow> awaits (fn sl) + 2 | Running n \<Rightarrow> n + 1 | Finished \<Rightarrow> 0) +
     (if link sl then 0 else 1)"

definition internal :: "'a event \<Rightarrow> bool" where
  "internal e =
     (case e of Start k \<Rightarrow> True | Resume k \<Rightarrow> True | Settle k \<Rightarrow> True | Chain k \<Rightarrow> True
      | _ \<Rightarrow> False)"

text \<open>What a schedule leaves, run from a new lock.\<close>

definition results_after :: "'a event list \<Rightarrow> (error + 'a) option list option" where
  "results_after evs = map_option (\<lambda>l. map result (slots l)) (run evs createWriteLock)"

definition outcomes_after :: "'a event list \<Rightarrow> (error + 'a) list option" where
  "outcomes_after evs = map_option (\<lambda>l. map (\<lambda>sl. outcome (fn sl)) (slots l)) (run evs createWriteLock)"

definition phases_after :: "'a event list \<Rightarrow> phase list option" where
  "phases_after evs = map_option (\<lambda>l. map phase (slots l)) (run evs createWriteLock)"

definition trace_after :: "'a event list \<Rightarrow> (nat \<times> nat) list option" where
  "trace_after evs = map_option trace (run evs createWriteLock)"

text \<open>
  Two calls, the first task fails after one resumption; and one call whose task fails
  after more than thirty seconds.
\<close>

definition demo_schedule :: "string event list" where
  "demo_schedule =
     [Submit \<lparr>awaits = 1, outcome = Inl StoreError\<rparr>, Start 0,
      Submit \<lparr>awaits = 0, outcome = Inr ''ok''\<rparr>,
      Resume 0, Settle 0, Chain 0, Start 1, Settle 1]"

definition late_failure :: "string event list" where
  "late_failure =
     [Submit \<lparr>awaits = 0, outcome = Inl StoreError\<rparr>, Start 0, Tick 30000, Timeout 0, Settle 0]"


text \<open>
  One call on a new lock: the task suspends \<open>n\<close> times and settles \<open>d\<close> milliseconds
  after the callback started it, and the timer fires when it is due.
\<close>

definition single_call :: "nat \<Rightarrow> (error + 'a) \<Rightarrow> nat \<Rightarrow> 'a event list" where
  "single_call n out d =
     [Submit \<lparr>awaits = n, outcome = out\<rparr>, Start 0, Tick d] @
     (if LOCK_TIMEOUT_MS \<le> int d then [Timeout 0] else []) @
     replicate n (Resume 0) @ [Settle 0]"

section \<open>Store calls and row search\<close>

lemma store_call_fields [simp]:
  "tickets_sheet (snd (store_call q s)) = tickets_sheet s"
  "pedidos_sheet (snd (store_call q s)) = pedidos_sheet s"
  "tickets_sheetId (snd (store_call q s)) = tickets_sheetId s"
  "pedidos_sheetId (snd (store_call q s)) = pedidos_sheetId s"
  "tickets_cache (snd (store_call q s)) = tickets_cache s"
  "tickets_cacheTime (snd (store_call q s)) = tickets_cacheTime s"
  "tickets_cachedSheetId (snd (store_call q s)) = tickets_cachedSheetId s"
  "orders_cache (snd (store_call q s)) = orders_cache s"
  "orders_cacheTime (snd (store_call q s)) = orders_cacheTime s"
  "orders_cachedSheetId (snd (store_call q s)) = orders_cachedSheetId s"
  "requests (snd (store_call q s)) = requests s @ [q]"
  "replies (snd (store_call q s)) = tl (replies s)"
  by (simp_all add: store_call_def split: list.split)

lemma store_call_get_sheet [simp]: "get_sheet n (snd (store_call q s)) = get_sheet n s"
  by (simp add: get_sheet_def split: sheet_name.split)

lemma store_call_ok: "next_ok (Suc n) s \<Longrightarrow> fst (store_call q s)"
  by (cases "replies s") (simp_all add: store_call_def next_ok_def)

lemma store_call_next_ok: "next_ok (Suc n) s \<Longrightarrow> next_ok n (snd (store_call q s))"
  by (cases "replies s") (simp_all add: store_call_def next_ok_def)

lemma values_get_eq:
  "values_get n s =
     (if fst (store_call (ValuesGet n) s) then Inr (get_sheet n s) else Inl StoreError,
      snd (store_call (ValuesGet n) s))"
proof (cases "store_call (ValuesGet n) s")
  case (Pair ok s')
  have "get_sheet n s' = get_sheet n s"
    using store_call_get_sheet[of n "ValuesGet n" s] Pair by simp
  with Pair show ?thesis by (simp add: values_get_def)
qed

lemma values_append_eq:
  "values_append n r s =
     (if fst (store_call (ValuesAppend n r) s)
      then (Inr (), put_sheet n (get_sheet n s @ [r]) (snd (store_call (ValuesAppend n r) s)))
      else (Inl StoreError, snd (store_call (ValuesAppend n r) s)))"
proof (cases "store_call (ValuesAppend n r) s")
  case (Pair ok s')
  have "get_sheet n s' = get_sheet n s"
    using store_call_get_sheet[of n "ValuesAppend n r" s] Pair by simp
  with Pair show ?thesis by (simp add: values_append_def)
qed

lemma values_update_eq:
  "values_update n i c vs s =
     (if fst (store_call (ValuesUpdate n i c vs) s)
      then (Inr (),
            if i < length (get_sheet n s)
            then put_sheet n ((get_sheet n s)[i := write_cells (get_sheet n s ! i) c vs])
                   (snd (store_call (ValuesUpdate n i c vs) s))
            else snd (store_call (ValuesUpdate n i c vs) s))
      else (Inl StoreError, snd (store_call (ValuesUpdate n i c vs) s)))"
proof (cases "store_call (ValuesUpdate n i c vs) s")
  case (Pair ok s')
  have "get_sheet n s' = get_sheet n s"
    using store_call_get_sheet[of n "ValuesUpdate n i c vs" s] Pair by simp
  with Pair show ?thesis by (simp add: values_update_def Let_def)
qed

lemma findIndex_from_Some:
  "findIndex_from p rows k = Some i \<Longrightarrow>
     k \<le> i \<and> i < k + length rows \<and> p (rows ! (i - k)) i \<and> (\<forall>j<i - k. \<not> p (rows ! j) (k + j))"
proof (induction rows arbitrary: k)
  case Nil
  then show ?case by simp
next
  case (Cons r rs)
  show ?case
  proof (cases "p r k")
    case True
    with Cons.prems show ?thesis by simp
  next
    case False
    with Cons.prems have "findIndex_from p rs (Suc k) = Some i" by simp
    from Cons.IH[OF this] have ih: "Suc k \<le> i" "i < Suc k + length rs" "p (rs ! (i - Suc k)) i"
      "\<forall>j<i - Suc k. \<not> p (rs ! j) (Suc k + j)" by auto
    have "\<forall>j<i - k. \<not> p ((r # rs) ! j) (k + j)"
    proof (intro allI impI)
      fix j assume "j < i - k"
      show "\<not> p ((r # rs) ! j) (k + j)"
      proof (cases j)
        case 0
        with False show ?thesis by simp
      next
        case (Suc j')
        with \<open>j < i - k\<close> have "j' < i - Suc k" by simp
        with ih(4) have "\<not> p (rs ! j') (Suc k + j')" by blast
        with Suc show ?thesis by simp
      qed
    qed
    moreover from ih have "(r # rs) ! (i - k) = rs ! (i - Suc k)"
      by (simp add: Suc_diff_le)
    ultimately show ?thesis using ih by simp
  qed
qed

lemma findIndex_from_None:
  "findIndex_from p rows k = None \<Longrightarrow> j < length rows \<Longrightarrow> \<not> p (rows ! j) (k + j)"
proof (induction rows arbitrary: k j)
  case Nil
  then show ?case by simp
next
  case (Cons r rs)
  show ?case
  proof (cases j)
    case 0
    with Cons.prems show ?thesis by (simp split: if_splits)
  next
    case (Suc j')
    from Cons.prems have "findIndex_from p rs (Suc k) = None" by (simp split: if_splits)
    from Cons.IH[OF this, of j'] Cons.prems Suc show ?thesis by simp
  qed
qed

lemma findIndex_Some:
  "findIndex p rows = Some i \<Longrightarrow> i < length rows \<and> p (rows ! i) i \<and> (\<forall>j<i. \<not> p (rows ! j) j)"
  using findIndex_from_Some[of p rows 0 i] by (simp add: findIndex_def)

lemma findIndex_None: "findIndex p rows = None \<Longrightarrow> j < length rows \<Longrightarrow> \<not> p (rows ! j) j"
  using findIndex_from_None[of p rows 0 j] by (simp add: findIndex_def)

lemma findIndex_first:
  assumes "i < length rows" "p (rows ! i) i" "\<forall>j<i. \<not> p (rows ! j) j"
  shows "findIndex p rows = Some i"
proof (cases "findIndex p rows")
  case None
  from findIndex_None[OF this assms(1)] assms(2) show ?thesis by simp
next
  case (Some k)
  from findIndex_Some[OF this] have k: "k < length rows" "p (rows ! k) k" "\<forall>j<k. \<not> p (rows ! j) j"
    by auto
  have "k = i"
  proof (rule ccontr)
    assume "k \<noteq> i"
    then consider "k < i" | "i < k" by linarith
    then show False using assms k by cases auto
  qed
  with Some show ?thesis by simp
qed

lemma findIndex_none:
  assumes "\<forall>j<length rows. \<not> p (rows ! j) j"
  shows "findIndex p rows = None"
proof (cases "findIndex p rows")
  case None then show ?thesis .
next
  case (Some k)
  from findIndex_Some[OF this] assms show ?thesis by auto
qed

lemma put_sheet_fields [simp]:
  "tickets_sheet (put_sheet Tickets rows s) = rows"
  "pedidos_sheet (put_sheet Tickets rows s) = pedidos_sheet s"
  "pedidos_sheet (put_sheet Pedidos rows s) = rows"
  "tickets_sheet (put_sheet Pedidos rows s) = tickets_sheet s"
  "replies (put_sheet n rows s) = replies s"
  "requests (put_sheet n rows s) = requests s"
  "clock (put_sheet n rows s) = clock s"
  "tickets_cache (put_sheet n rows s) = tickets_cache s"
  "tickets_cacheTime (put_sheet n rows s) = tickets_cacheTime s"
  "orders_cache (put_sheet n rows s) = orders_cache s"
  "orders_cacheTime (put_sheet n rows s) = orders_cacheTime s"
  by (simp_all add: put_sheet_def split: sheet_name.split)

lemma get_sheet_simps [simp]:
  "get_sheet Tickets s = tickets_sheet s"
  "get_sheet Pedidos s = pedidos_sheet s"
  by (simp_all add: get_sheet_def)

lemma tickets_invalidateCache_fields [simp]:
  "tickets_sheet (tickets_invalidateCache s) = tickets_sheet s"
  "pedidos_sheet (tickets_invalidateCache s) = pedidos_sheet s"
  "replies (tickets_invalidateCache s) = replies s"
  "requests (tickets_invalidateCache s) = requests s"
  "clock (tickets_invalidateCache s) = clock s"
  "tickets_cache (tickets_invalidateCache s) = None"
  "tickets_cacheTime (tickets_invalidateCache s) = 0"
  "orders_cache (tickets_invalidateCache s) = orders_cache s"
  "orders_cacheTime (tickets_invalidateCache s) = orders_cacheTime s"
  by (simp_all add: tickets_invalidateCache_def)

lemma orders_invalidateCache_fields [simp]:
  "tickets_sheet (orders_invalidateCache s) = tickets_sheet s"
  "pedidos_sheet (orders_invalidateCache s) = pedidos_sheet s"
  "replies (orders_invalidateCache s) = replies s"
  "requests (orders_invalidateCache s) = requests s"
  "clock (orders_invalidateCache s) = clock s"
  "orders_cache (orders_invalidateCache s) = None"
  "orders_cacheTime (orders_invalidateCache s) = 0"
  "tickets_cache (orders_invalidateCache s) = tickets_cache s"
  "tickets_cacheTime (orders_invalidateCache s) = tickets_cacheTime s"
  by (simp_all add: orders_invalidateCache_def)

lemma next_ok_tickets_invalidateCache [simp]: "next_ok n (tickets_invalidateCache s) = next_ok n s"
  by (simp add: next_ok_def)

lemma next_ok_orders_invalidateCache [simp]: "next_ok n (orders_invalidateCache s) = next_ok n s"
  by (simp add: next_ok_def)

lemma next_ok_put_sheet [simp]: "next_ok n (put_sheet m rows s) = next_ok n s"
  by (simp add: next_ok_def)

lemma has_key_length: "has_key k r i \<Longrightarrow> 0 < length r \<and> 0 < i"
  by (simp add: has_key_def cell_def split: if_splits)

lemma write_cells_first: "0 < length r \<Longrightarrow> write_cells r 0 [v] = r[0 := v]"
  by (cases r) (simp_all add: write_cells_def)

lemma cell_update_first: "0 < k \<Longrightarrow> cell (r[0 := v]) k = cell r k"
  by (simp add: cell_def)

lemmas store_defs = store_call_def values_get_def values_append_def values_update_def
  get_sheet_def put_sheet_def write_cells_def findIndex_def cell_def truthy_def or_empty_def
  has_key_def available_def tickets_invalidateCache_def orders_invalidateCache_def

lemma rowToOrder_write_cells: "rowToOrder (write_cells r 0 (orderToRow x)) = x"
  by (simp add: rowToOrder_def write_cells_def orderToRow_def cell_def or_empty_def)

lemma next_ok_mono: "next_ok n s \<Longrightarrow> m \<le> n \<Longrightarrow> next_ok m s"
proof -
  assume a: "next_ok n s" and le: "m \<le> n"
  have "set (take m (replies s)) \<subseteq> set (take n (replies s))"
    using le by (rule set_take_subset_set_take)
  with a show ?thesis by (auto simp: next_ok_def list_all_iff)
qed

lemma next_ok_Suc: "next_ok (Suc n) s \<Longrightarrow> next_ok n s"
  using next_ok_mono[of "Suc n" s n] by simp

lemmas order_defs = createOrder_def under_lock_def LOCK_TIMEOUT_MS_def createOrder_task_def
  createOrder_ticket_def allocate_def assignAvailableTicket_def
  readAllOrders_def fetch_orders_def decode_orders_def rowToOrder_def orderToRow_def new_order_def
  normalize_oab_def find_duplicate_def trim_def is_space_def


section \<open>Operations under the lock\<close>

lemma under_lock_eq:
  "under_lock task s =
     (if LOCK_TIMEOUT_MS \<le> clock (snd (task s)) - clock s then Inl WriteTimeout else fst (task s),
      snd (task s))"
  by (simp add: under_lock_def split: prod.split)

lemma under_lock_snd: "snd (under_lock task s) = snd (task s)"
  by (simp add: under_lock_eq)

lemma under_lock_in_time:
  "under_lock task s = (r, s') \<Longrightarrow> clock s' - clock s < LOCK_TIMEOUT_MS \<Longrightarrow> task s = (r, s')"
  by (cases "task s") (auto simp: under_lock_eq split: if_splits)

lemma under_lock_Inr: "under_lock task s = (Inr x, s') \<Longrightarrow> task s = (Inr x, s')"
  by (cases "task s") (auto simp: under_lock_eq split: if_splits)

lemma under_lock_late:
  "under_lock task s = (r, s') \<Longrightarrow> LOCK_TIMEOUT_MS \<le> clock s' - clock s \<Longrightarrow> r = Inl WriteTimeout"
  by (cases "task s") (auto simp: under_lock_eq split: if_splits)

lemma under_lock_state: "under_lock task s = (r, s') \<Longrightarrow> snd (task s) = s'"
  by (cases "task s") (auto simp: under_lock_eq)

lemma under_lock_delivered:
  assumes "under_lock task s = (r, s')" and "\<And>r0. task s = (r0, s') \<Longrightarrow> r0 = Inl e"
  shows "delivered s s' r e"
proof (cases "task s")
  case (Pair r0 s0)
  with assms(1) have s0: "s0 = s'"
    and r: "r = (if LOCK_TIMEOUT_MS \<le> clock s' - clock s then Inl WriteTimeout else r0)"
    by (auto simp: under_lock_eq)
  from Pair s0 assms(2) have "r0 = Inl e" by simp
  with r show ?thesis by (auto simp: delivered_def)
qed

lemma under_lock_task:
  assumes "under_lock task s = (r, s')"
  shows "task s = (fst (task s), s')"
  using assms by (cases "task s") (auto simp: under_lock_eq)

lemma store_call_clock [simp]: "c \<le> clock s \<Longrightarrow> c \<le> clock (snd (store_call q s))"
  by (cases "replies s") (simp_all add: store_call_def)

lemmas lock_ops = createTicket_def updateTicket_def deleteTicket_def createOrder_def
  updateOrder_def deleteOrder_def under_lock_def LOCK_TIMEOUT_MS_def

section \<open>The ticket allocator\<close>

lemma cell_write_cells_status:
  "0 < length r \<Longrightarrow> cell (write_cells r 1 [v]) 1 = Some v \<and> cell (write_cells r 1 [v]) 0 = cell r 0"
  by (cases r) (simp_all add: cell_def write_cells_def)

lemma truthy_length: "truthy (cell r 0) \<Longrightarrow> 0 < length r"
  by (simp add: truthy_def cell_def split: if_splits)

lemma assignAvailableTicket_found:
  assumes ok: "next_ok 2 s"
    and i: "findIndex available (tickets_sheet s) = Some i"
  shows "assignAvailableTicket s =
     (Inr (or_empty (cell (tickets_sheet s ! i) 0)),
      tickets_invalidateCache
        (put_sheet Tickets ((tickets_sheet s)[i := write_cells (tickets_sheet s ! i) 1 [marker]])
           (snd (store_call (ValuesUpdate Tickets i 1 [marker]) (snd (store_call (ValuesGet Tickets) s))))))"
proof -
  from ok have ok1: "fst (store_call (ValuesGet Tickets) s)"
    using store_call_ok[of 1 s] by (simp add: numeral_2_eq_2)
  from ok have "next_ok 1 (snd (store_call (ValuesGet Tickets) s))"
    using store_call_next_ok[of 1 s] by (simp add: numeral_2_eq_2)
  then have ok2: "fst (store_call (ValuesUpdate Tickets i 1 [marker]) (snd (store_call (ValuesGet Tickets) s)))"
    using store_call_ok[of 0] by simp
  from findIndex_Some[OF i] have "i < length (tickets_sheet s)" by simp
  with ok1 ok2 i show ?thesis
    by (simp add: assignAvailableTicket_def values_get_eq values_update_eq Let_def)
qed

lemma assignAvailableTicket_none:
  assumes ok: "next_ok 1 s"
    and i: "findIndex available (tickets_sheet s) = None"
  shows "assignAvailableTicket s = (Inl NoTicketsError, snd (store_call (ValuesGet Tickets) s))"
proof -
  from ok have ok1: "fst (store_call (ValuesGet Tickets) s)"
    using store_call_ok[of 0 s] by simp
  with i show ?thesis
    by (simp add: assignAvailableTicket_def values_get_eq)
qed

lemma assignAvailableTicket_requests:
  "take (Suc (length (requests s))) (requests (snd (assignAvailableTicket s))) = requests s @ [ValuesGet Tickets]"
  by (simp add: assignAvailableTicket_def values_get_eq values_update_eq Let_def split: option.split)

lemma marker_nonempty: "marker \<noteq> []"
  by (simp add: marker_def)

text \<open>
  Claim C3. The allocator always reads the ticket rows from the store (the log gets a
  \<^verbatim>\<open>values.get\<close> of the tickets sheet whatever the cache holds). When the store answers:
  if no row after the header has a non-empty ticket cell and an empty status cell, it
  fails with \<open>NoTicketsError\<close>, made no other call and left both sheets as they were;
  otherwise, for the first such row in row order, it returns that row's ticket value,
  has written the non-empty marker into the status cell of that row (nothing else in
  the sheet changes), and the tickets cache is invalidated.
\<close>

theorem assignAvailableTicket_first_available:
  assumes "next_ok 2 s" and "assignAvailableTicket s = (r, s')"
  shows "take (Suc (length (requests s))) (requests s') = requests s @ [ValuesGet Tickets] \<and>
    ((\<forall>i<length (tickets_sheet s). \<not> available (tickets_sheet s ! i) i) \<longrightarrow>
       r = Inl NoTicketsError \<and> tickets_sheet s' = tickets_sheet s \<and>
       pedidos_sheet s' = pedidos_sheet s \<and> requests s' = requests s @ [ValuesGet Tickets]) \<and>
    (\<forall>i<length (tickets_sheet s).
       available (tickets_sheet s ! i) i \<and> (\<forall>j<i. \<not> available (tickets_sheet s ! j) j) \<longrightarrow>
       r = Inr (or_empty (cell (tickets_sheet s ! i) 0)) \<and>
       or_empty (cell (tickets_sheet s ! i) 0) \<noteq> [] \<and>
       tickets_sheet s' = (tickets_sheet s)[i := write_cells (tickets_sheet s ! i) 1 [marker]] \<and>
       cell (tickets_sheet s' ! i) 1 = Some marker \<and> marker \<noteq> [] \<and>
       cell (tickets_sheet s' ! i) 0 = cell (tickets_sheet s ! i) 0 \<and>
       pedidos_sheet s' = pedidos_sheet s \<and>
       tickets_cache s' = None)"
proof (intro conjI impI allI)
  show "take (Suc (length (requests s))) (requests s') = requests s @ [ValuesGet Tickets]"
    using assignAvailableTicket_requests[of s] assms(2) by simp
next
  assume none: "\<forall>i<length (tickets_sheet s). \<not> available (tickets_sheet s ! i) i"
  from assms(1) have "next_ok 1 s" by (rule next_ok_mono) simp
  from assignAvailableTicket_none[OF this findIndex_none[of "tickets_sheet s" available, OF none]] assms(2)
  have r: "r = Inl NoTicketsError" and s': "s' = snd (store_call (ValuesGet Tickets) s)" by simp_all
  show "r = Inl NoTicketsError" by (rule r)
  show "tickets_sheet s' = tickets_sheet s" by (simp add: s')
  show "pedidos_sheet s' = pedidos_sheet s" by (simp add: s')
  show "requests s' = requests s @ [ValuesGet Tickets]" by (simp add: s')
next
  fix i
  assume i: "i < length (tickets_sheet s)"
    and "available (tickets_sheet s ! i) i \<and> (\<forall>j<i. \<not> available (tickets_sheet s ! j) j)"
  then have av: "available (tickets_sheet s ! i) i" and first: "\<forall>j<i. \<not> available (tickets_sheet s ! j) j"
    by simp_all
  from findIndex_first[of i "tickets_sheet s" available, OF i av first] have fi: "findIndex available (tickets_sheet s) = Some i" .
  from assignAvailableTicket_found[OF assms(1) fi] assms(2)
  have r: "r = Inr (or_empty (cell (tickets_sheet s ! i) 0))"
    and s': "s' = tickets_invalidateCache
        (put_sheet Tickets ((tickets_sheet s)[i := write_cells (tickets_sheet s ! i) 1 [marker]])
           (snd (store_call (ValuesUpdate Tickets i 1 [marker]) (snd (store_call (ValuesGet Tickets) s)))))"
    by simp_all
  from av have tr: "truthy (cell (tickets_sheet s ! i) 0)" by (simp add: available_def)
  show "r = Inr (or_empty (cell (tickets_sheet s ! i) 0))" by (rule r)
  show "or_empty (cell (tickets_sheet s ! i) 0) \<noteq> []"
    using tr by (simp add: truthy_def or_empty_def split: option.splits)
  show "tickets_sheet s' = (tickets_sheet s)[i := write_cells (tickets_sheet s ! i) 1 [marker]]"
    by (simp add: s')
  show "cell (tickets_sheet s' ! i) 1 = Some marker"
    using i cell_write_cells_status[OF truthy_length[OF tr]] by (simp add: s')
  show "marker \<noteq> []" by (rule marker_nonempty)
  show "cell (tickets_sheet s' ! i) 0 = cell (tickets_sheet s ! i) 0"
    using i cell_write_cells_status[OF truthy_length[OF tr]] by (simp add: s')
  show "pedidos_sheet s' = pedidos_sheet s" by (simp add: s')
  show "tickets_cache s' = None" by (simp add: s')
qed


theorem assignAvailableTicket_first_available_witness:
  "next_ok 2 demo_state \<and>
   fst (assignAvailableTicket demo_state) = Inr ''68637750800'' \<and>
   tickets_sheet (snd (assignAvailableTicket demo_state)) =
     [[''ticket'', ''status''], [''11111111111'', marker], [''68637750800'', marker], [''22222222222'', []]] \<and>
   tickets_cache (snd (assignAvailableTicket demo_state)) = None \<and>
   next_ok 2 demo_exhausted \<and>
   fst (assignAvailableTicket demo_exhausted) = Inl NoTicketsError \<and>
   tickets_sheet (snd (assignAvailableTicket demo_exhausted)) = tickets_sheet demo_exhausted"
proof -
  have ok: "next_ok 2 demo_state" by (simp add: next_ok_def demo_state_def)
  have av: "(2::nat) < length (tickets_sheet demo_state) \<and> available (tickets_sheet demo_state ! 2) 2 \<and>
        (\<forall>j<2. \<not> available (tickets_sheet demo_state ! j) j)"
    by (simp add: demo_state_def available_def truthy_def cell_def marker_def less_2_cases_iff)
  have av: "(2::nat) < length (tickets_sheet demo_state)"
    "available (tickets_sheet demo_state ! 2) 2 \<and> (\<forall>j<2. \<not> available (tickets_sheet demo_state ! j) j)"
    using av by simp_all
  note spec = assignAvailableTicket_first_available[OF ok surjective_pairing]
  from spec[THEN conjunct2, THEN conjunct2, rule_format, OF av]
  have "fst (assignAvailableTicket demo_state) = Inr (or_empty (cell (tickets_sheet demo_state ! 2) 0)) \<and>
     tickets_sheet (snd (assignAvailableTicket demo_state)) = (tickets_sheet demo_state)[2 := write_cells (tickets_sheet demo_state ! 2) 1 [marker]]
     \<and> tickets_cache (snd (assignAvailableTicket demo_state)) = None"
    by simp
  then have found: "fst (assignAvailableTicket demo_state) = Inr ''68637750800'' \<and>
     tickets_sheet (snd (assignAvailableTicket demo_state)) =
       [[''ticket'', ''status''], [''11111111111'', marker], [''68637750800'', marker],
        [''22222222222'', []]] \<and>
     tickets_cache (snd (assignAvailableTicket demo_state)) = None"
    by (simp add: demo_state_def or_empty_def cell_def write_cells_def)
  have ok': "next_ok 2 demo_exhausted" by (simp add: next_ok_def demo_exhausted_def demo_state_def)
  have none: "\<forall>i<length (tickets_sheet demo_exhausted). \<not> available (tickets_sheet demo_exhausted ! i) i"
    by (auto simp: demo_exhausted_def demo_state_def available_def truthy_def cell_def marker_def
        less_Suc_eq)
  note spec' = assignAvailableTicket_first_available[OF ok' surjective_pairing]
  from spec'[THEN conjunct2, THEN conjunct1, THEN mp, OF none]
  have "fst (assignAvailableTicket demo_exhausted) = Inl NoTicketsError \<and>
     tickets_sheet (snd (assignAvailableTicket demo_exhausted)) = tickets_sheet demo_exhausted"
    by simp
  with found ok ok' show ?thesis by simp
qed

section \<open>Renaming a ticket\<close>

lemma updateTicket_Inr:
  assumes "updateTicket_task oldTicket newTicket s = (Inr t, s')"
  obtains i where "findIndex (has_key oldTicket) (tickets_sheet s) = Some i"
    and "t = \<lparr>t_ticket = newTicket, t_status = or_empty (cell (tickets_sheet s ! i) 1)\<rparr>"
    and "s' = tickets_invalidateCache
          (put_sheet Tickets ((tickets_sheet s)[i := write_cells (tickets_sheet s ! i) 0 [newTicket]])
            (snd (store_call (ValuesUpdate Tickets i 0 [newTicket])
               (snd (store_call (ValuesGet Tickets) (tickets_invalidateCache s))))))"
proof (cases "findIndex (has_key oldTicket) (tickets_sheet s)")
  case None
  with assms show ?thesis
    by (simp add: updateTicket_task_def values_get_eq split: if_splits)
next
  case (Some i)
  from findIndex_Some[OF Some] have "i < length (tickets_sheet s)" by simp
  with assms Some that[of i] show ?thesis
    by (simp add: updateTicket_task_def values_get_eq values_update_eq Let_def split: if_splits)
qed

text \<open>
  Claim C10. Every successful rename \<^verbatim>\<open>updateTicket(oldTicket, newTicket)\<close> overwrites
  only the ticket cell (column A) of the matched row: the status cell of that row is
  what it was, every other row and the orders sheet are unchanged, and the returned
  ticket carries the status the row had before the rename. So an assigned ticket stays
  assigned and an available one stays available.
\<close>

theorem updateTicket_keeps_status:
  assumes "updateTicket oldTicket newTicket s = (Inr t, s')"
  shows "\<exists>i. 0 < i \<and> i < length (tickets_sheet s) \<and>
           cell (tickets_sheet s ! i) 0 = Some oldTicket \<and>
           tickets_sheet s' = (tickets_sheet s)[i := (tickets_sheet s ! i)[0 := newTicket]] \<and>
           cell (tickets_sheet s' ! i) 0 = Some newTicket \<and>
           cell (tickets_sheet s' ! i) 1 = cell (tickets_sheet s ! i) 1 \<and>
           t = \<lparr>t_ticket = newTicket, t_status = or_empty (cell (tickets_sheet s ! i) 1)\<rparr> \<and>
           pedidos_sheet s' = pedidos_sheet s"
proof -
  from assms have "updateTicket_task oldTicket newTicket s = (Inr t, s')"
    unfolding updateTicket_def by (rule under_lock_Inr)
  then obtain i where fi: "findIndex (has_key oldTicket) (tickets_sheet s) = Some i"
    and t: "t = \<lparr>t_ticket = newTicket, t_status = or_empty (cell (tickets_sheet s ! i) 1)\<rparr>"
    and s': "s' = tickets_invalidateCache
          (put_sheet Tickets ((tickets_sheet s)[i := write_cells (tickets_sheet s ! i) 0 [newTicket]])
            (snd (store_call (ValuesUpdate Tickets i 0 [newTicket])
               (snd (store_call (ValuesGet Tickets) (tickets_invalidateCache s))))))"
    by (rule updateTicket_Inr)
  from findIndex_Some[OF fi] have i: "i < length (tickets_sheet s)"
    and key: "has_key oldTicket (tickets_sheet s ! i) i" by simp_all
  from has_key_length[OF key] have len: "0 < length (tickets_sheet s ! i)" and pos: "0 < i"
    by simp_all
  have sheet: "tickets_sheet s' = (tickets_sheet s)[i := (tickets_sheet s ! i)[0 := newTicket]]"
    by (simp add: s' write_cells_first[OF len])
  have c0: "cell (tickets_sheet s' ! i) 0 = Some newTicket"
    using i len by (simp add: sheet cell_def)
  have c1: "cell (tickets_sheet s' ! i) 1 = cell (tickets_sheet s ! i) 1"
    using i by (simp add: sheet cell_update_first)
  have "pedidos_sheet s' = pedidos_sheet s" by (simp add: s')
  with pos i key sheet c0 c1 t show ?thesis
    by (auto simp: has_key_def)
qed

theorem updateTicket_keeps_status_witness:
  "fst (updateTicket ''11111111111'' ''33333333333'' demo_state) =
     Inr \<lparr>t_ticket = ''33333333333'', t_status = marker\<rparr> \<and>
   (\<exists>i. 0 < i \<and> cell (tickets_sheet demo_state ! i) 0 = Some ''11111111111'' \<and>
      cell (tickets_sheet (snd (updateTicket ''11111111111'' ''33333333333'' demo_state)) ! i) 1 =
      cell (tickets_sheet demo_state ! i) 1)"
proof -
  have f: "fst (updateTicket ''11111111111'' ''33333333333'' demo_state) =
     Inr \<lparr>t_ticket = ''33333333333'', t_status = marker\<rparr>"
    by (simp add: updateTicket_def under_lock_def LOCK_TIMEOUT_MS_def updateTicket_task_def demo_state_def store_defs)
  from f have h: "updateTicket ''11111111111'' ''33333333333'' demo_state =
     (Inr \<lparr>t_ticket = ''33333333333'', t_status = marker\<rparr>,
      snd (updateTicket ''11111111111'' ''33333333333'' demo_state))"
    by (metis prod.collapse)
  from updateTicket_keeps_status[OF h] obtain i where "0 < i"
    "cell (tickets_sheet demo_state ! i) 0 = Some ''11111111111''"
    "cell (tickets_sheet (snd (updateTicket ''11111111111'' ''33333333333'' demo_state)) ! i) 1 =
      cell (tickets_sheet demo_state ! i) 1"
    by blast
  with f show ?thesis by blast
qed

section \<open>Updating an order\<close>

lemma updateOrder_found:
  assumes ok: "next_ok 2 s"
    and i: "findIndex (has_key u) (pedidos_sheet s) = Some i"
  shows "updateOrder_task u data s =
     (Inr (merge_order (rowToOrder (pedidos_sheet s ! i)) data),
      orders_invalidateCache
        (put_sheet Pedidos
           ((pedidos_sheet s)[i := write_cells (pedidos_sheet s ! i) 0
               (orderToRow (merge_order (rowToOrder (pedidos_sheet s ! i)) data))])
           (snd (store_call
              (ValuesUpdate Pedidos i 0 (orderToRow (merge_order (rowToOrder (pedidos_sheet s ! i)) data)))
              (snd (store_call (ValuesGet Pedidos) (orders_invalidateCache s)))))))"
proof -
  let ?s0 = "orders_invalidateCache s"
  from ok have ok0: "next_ok 2 ?s0" by simp
  then have ok1: "fst (store_call (ValuesGet Pedidos) ?s0)"
    using store_call_ok[of 1 ?s0] by (simp add: numeral_2_eq_2)
  from ok0 have "next_ok 1 (snd (store_call (ValuesGet Pedidos) ?s0))"
    using store_call_next_ok[of 1 ?s0] by (simp add: numeral_2_eq_2)
  then have ok2: "\<And>q. fst (store_call q (snd (store_call (ValuesGet Pedidos) ?s0)))"
    using store_call_ok[of 0] by simp
  from findIndex_Some[OF i] have "i < length (pedidos_sheet s)" by simp
  with ok1 ok2 i show ?thesis
    by (simp add: updateOrder_task_def values_get_eq values_update_eq Let_def)
qed

lemma updateOrder_none:
  assumes ok: "next_ok 1 s"
    and i: "findIndex (has_key u) (pedidos_sheet s) = None"
  shows "updateOrder_task u data s =
     (Inl (NotFoundError ''Order''), snd (store_call (ValuesGet Pedidos) (orders_invalidateCache s)))"
proof -
  from ok have "fst (store_call (ValuesGet Pedidos) (orders_invalidateCache s))"
    using store_call_ok[of 0 "orders_invalidateCache s"] by simp
  with i show ?thesis
    by (simp add: updateOrder_task_def values_get_eq)
qed

lemma has_key_uuid: "has_key u r i \<Longrightarrow> uuid (rowToOrder r) = u"
  by (simp add: has_key_def rowToOrder_def or_empty_def)

text \<open>
  Claim C8. When the store answers and the operation settles before the thirty seconds
  of the write lock have passed, \<^verbatim>\<open>updateOrder(uuid, partialData)\<close> fails with
  \<open>NotFoundError\<close> and changes neither sheet if no row after the header has that uuid
  in its first cell. Otherwise the first such row is rewritten and returned: its uuid is
  unchanged, every field that is absent from the partial input decodes to the value it
  had before, every field that is present has the supplied value; no other row changes.
\<close>

theorem updateOrder_partial_merge:
  assumes "next_ok 2 s" and "updateOrder u data s = (r, s')"
    and "clock s' - clock s < LOCK_TIMEOUT_MS"
  shows
    "((\<forall>i<length (pedidos_sheet s). \<not> has_key u (pedidos_sheet s ! i) i) \<longrightarrow>
        r = Inl (NotFoundError ''Order'') \<and> pedidos_sheet s' = pedidos_sheet s \<and>
        tickets_sheet s' = tickets_sheet s \<and> requests s' = requests s @ [ValuesGet Pedidos]) \<and>
     (\<forall>i<length (pedidos_sheet s).
        has_key u (pedidos_sheet s ! i) i \<and> (\<forall>j<i. \<not> has_key u (pedidos_sheet s ! j) j) \<longrightarrow>
        r = Inr (rowToOrder (pedidos_sheet s' ! i)) \<and>
        length (pedidos_sheet s') = length (pedidos_sheet s) \<and>
        (\<forall>j<length (pedidos_sheet s). j \<noteq> i \<longrightarrow> pedidos_sheet s' ! j = pedidos_sheet s ! j) \<and>
        tickets_sheet s' = tickets_sheet s \<and>
        orders_cache s' = None \<and>
        uuid (rowToOrder (pedidos_sheet s' ! i)) = u \<and>
        uuid (rowToOrder (pedidos_sheet s ! i)) = u \<and>
        ticket (rowToOrder (pedidos_sheet s' ! i)) =
          (case u_ticket data of None \<Rightarrow> ticket (rowToOrder (pedidos_sheet s ! i)) | Some v \<Rightarrow> v) \<and>
        numero_oab (rowToOrder (pedidos_sheet s' ! i)) =
          (case u_numero_oab data of None \<Rightarrow> numero_oab (rowToOrder (pedidos_sheet s ! i)) | Some v \<Rightarrow> v) \<and>
        nome_completo (rowToOrder (pedidos_sheet s' ! i)) =
          (case u_nome_completo data of None \<Rightarrow> nome_completo (rowToOrder (pedidos_sheet s ! i)) | Some v \<Rightarrow> v) \<and>
        subsecao (rowToOrder (pedidos_sheet s' ! i)) =
          (case u_subsecao data of None \<Rightarrow> subsecao (rowToOrder (pedidos_sheet s ! i)) | Some v \<Rightarrow> v) \<and>
        data_solicitacao (rowToOrder (pedidos_sheet s' ! i)) =
          (case u_data_solicitacao data of None \<Rightarrow> data_solicitacao (rowToOrder (pedidos_sheet s ! i)) | Some v \<Rightarrow> v) \<and>
        data_liberacao (rowToOrder (pedidos_sheet s' ! i)) =
          (case u_data_liberacao data of None \<Rightarrow> data_liberacao (rowToOrder (pedidos_sheet s ! i)) | Some v \<Rightarrow> v) \<and>
        status (rowToOrder (pedidos_sheet s' ! i)) =
          (case u_status data of None \<Rightarrow> status (rowToOrder (pedidos_sheet s ! i)) | Some v \<Rightarrow> v) \<and>
        anotacoes (rowToOrder (pedidos_sheet s' ! i)) =
          (case u_anotacoes data of None \<Rightarrow> anotacoes (rowToOrder (pedidos_sheet s ! i)) | Some v \<Rightarrow> v))"
proof -
  from assms(2,3) have task: "updateOrder_task u data s = (r, s')"
    unfolding updateOrder_def by (rule under_lock_in_time)
  show ?thesis
  proof (intro conjI impI allI)
  assume none: "\<forall>i<length (pedidos_sheet s). \<not> has_key u (pedidos_sheet s ! i) i"
  from assms(1) have "next_ok 1 s" by (rule next_ok_mono) simp
  from updateOrder_none[OF this findIndex_none[of "pedidos_sheet s" "has_key u", OF none], of data] task
  have r: "r = Inl (NotFoundError ''Order'')"
    and s': "s' = snd (store_call (ValuesGet Pedidos) (orders_invalidateCache s))" by simp_all
  show "r = Inl (NotFoundError ''Order'')" by (rule r)
  show "pedidos_sheet s' = pedidos_sheet s" by (simp add: s')
  show "tickets_sheet s' = tickets_sheet s" by (simp add: s')
  show "requests s' = requests s @ [ValuesGet Pedidos]" by (simp add: s')
next
  fix i
  assume i: "i < length (pedidos_sheet s)"
    and "has_key u (pedidos_sheet s ! i) i \<and> (\<forall>j<i. \<not> has_key u (pedidos_sheet s ! j) j)"
  then have key: "has_key u (pedidos_sheet s ! i) i"
    and first: "\<forall>j<i. \<not> has_key u (pedidos_sheet s ! j) j" by simp_all
  let ?old = "rowToOrder (pedidos_sheet s ! i)"
  let ?new = "merge_order ?old data"
  from findIndex_first[of i "pedidos_sheet s" "has_key u", OF i key first]
  have fi: "findIndex (has_key u) (pedidos_sheet s) = Some i" .
  from updateOrder_found[OF assms(1) fi, of data] task
  have r: "r = Inr ?new"
    and s': "s' = orders_invalidateCache
        (put_sheet Pedidos
           ((pedidos_sheet s)[i := write_cells (pedidos_sheet s ! i) 0 (orderToRow ?new)])
           (snd (store_call (ValuesUpdate Pedidos i 0 (orderToRow ?new))
              (snd (store_call (ValuesGet Pedidos) (orders_invalidateCache s))))))"
    by simp_all
  have row: "rowToOrder (pedidos_sheet s' ! i) = ?new"
    using i by (simp add: s' rowToOrder_write_cells)
  show "r = Inr (rowToOrder (pedidos_sheet s' ! i))" by (simp add: r row)
  show "length (pedidos_sheet s') = length (pedidos_sheet s)" by (simp add: s')
  show "pedidos_sheet s' ! j = pedidos_sheet s ! j" if "j < length (pedidos_sheet s)" "j \<noteq> i" for j
    using that by (simp add: s')
  show "tickets_sheet s' = tickets_sheet s" by (simp add: s')
  show "orders_cache s' = None" by (simp add: s')
  show "uuid (rowToOrder (pedidos_sheet s ! i)) = u" by (rule has_key_uuid[OF key])
  then show "uuid (rowToOrder (pedidos_sheet s' ! i)) = u" by (simp add: row merge_order_def)
  show "ticket (rowToOrder (pedidos_sheet s' ! i)) =
          (case u_ticket data of None \<Rightarrow> ticket ?old | Some v \<Rightarrow> v)"
    by (simp add: row merge_order_def nullish_def)
  show "numero_oab (rowToOrder (pedidos_sheet s' ! i)) =
          (case u_numero_oab data of None \<Rightarrow> numero_oab ?old | Some v \<Rightarrow> v)"
    by (simp add: row merge_order_def nullish_def)
  show "nome_completo (rowToOrder (pedidos_sheet s' ! i)) =
          (case u_nome_completo data of None \<Rightarrow> nome_completo ?old | Some v \<Rightarrow> v)"
    by (simp add: row merge_order_def nullish_def)
  show "subsecao (rowToOrder (pedidos_sheet s' ! i)) =
          (case u_subsecao data of None \<Rightarrow> subsecao ?old | Some v \<Rightarrow> v)"
    by (simp add: row merge_order_def nullish_def)
  show "data_solicitacao (rowToOrder (pedidos_sheet s' ! i)) =
          (case u_data_solicitacao data of None \<Rightarrow> data_solicitacao ?old | Some v \<Rightarrow> v)"
    by (simp add: row merge_order_def nullish_def)
  show "data_liberacao (rowToOrder (pedidos_sheet s' ! i)) =
          (case u_data_liberacao data of None \<Rightarrow> data_liberacao ?old | Some v \<Rightarrow> v)"
    by (simp add: row merge_order_def nullish_def)
  show "status (rowToOrder (pedidos_sheet s' ! i)) =
          (case u_status data of None \<Rightarrow> status ?old | Some v \<Rightarrow> v)"
    by (simp add: row merge_order_def nullish_def)
  show "anotacoes (rowToOrder (pedidos_sheet s' ! i)) =
          (case u_anotacoes data of None \<Rightarrow> anotacoes ?old | Some v \<Rightarrow> v)"
    by (simp add: row merge_order_def nullish_def)
  qed
qed

theorem updateOrder_partial_merge_witness:
  "next_ok 2 demo_orders \<and>
   clock (snd (updateOrder ''u-1'' only_status demo_orders)) - clock demo_orders < LOCK_TIMEOUT_MS \<and>
   clock (snd (updateOrder ''u-9'' only_status demo_orders)) - clock demo_orders < LOCK_TIMEOUT_MS \<and>
   fst (updateOrder ''u-1'' only_status demo_orders) =
     Inr (rowToOrder (pedidos_sheet (snd (updateOrder ''u-1'' only_status demo_orders)) ! 1)) \<and>
   uuid (rowToOrder (pedidos_sheet (snd (updateOrder ''u-1'' only_status demo_orders)) ! 1)) = ''u-1'' \<and>
   ticket (rowToOrder (pedidos_sheet (snd (updateOrder ''u-1'' only_status demo_orders)) ! 1)) = ''11111111111'' \<and>
   nome_completo (rowToOrder (pedidos_sheet (snd (updateOrder ''u-1'' only_status demo_orders)) ! 1)) = ''Ana'' \<and>
   status (rowToOrder (pedidos_sheet (snd (updateOrder ''u-1'' only_status demo_orders)) ! 1)) = ''Aprovado'' \<and>
   anotacoes (rowToOrder (pedidos_sheet (snd (updateOrder ''u-1'' only_status demo_orders)) ! 1)) = [] \<and>
   fst (updateOrder ''u-9'' only_status demo_orders) = Inl (NotFoundError ''Order'') \<and>
   pedidos_sheet (snd (updateOrder ''u-9'' only_status demo_orders)) = pedidos_sheet demo_orders"
proof -
  have ok: "next_ok 2 demo_orders"
    by (simp add: next_ok_def demo_orders_def demo_state_def)
  have i: "(1::nat) < length (pedidos_sheet demo_orders)"
    by (simp add: demo_orders_def)
  have key: "has_key ''u-1'' (pedidos_sheet demo_orders ! 1) 1 \<and>
      (\<forall>j<1. \<not> has_key ''u-1'' (pedidos_sheet demo_orders ! j) j)"
    by (simp add: demo_orders_def has_key_def cell_def)
  have t1: "clock (snd (updateOrder ''u-1'' only_status demo_orders)) - clock demo_orders < LOCK_TIMEOUT_MS"
    by (simp add: lock_ops updateOrder_task_def demo_orders_def demo_state_def store_defs
        rowToOrder_def orderToRow_def merge_order_def only_status_def nullish_def Let_def)
  have t9: "clock (snd (updateOrder ''u-9'' only_status demo_orders)) - clock demo_orders < LOCK_TIMEOUT_MS"
    by (simp add: lock_ops updateOrder_task_def demo_orders_def demo_state_def store_defs Let_def)
  note spec = updateOrder_partial_merge[OF ok surjective_pairing t1]
  have none: "\<forall>i<length (pedidos_sheet demo_orders). \<not> has_key ''u-9'' (pedidos_sheet demo_orders ! i) i"
    by (auto simp: demo_orders_def demo_state_def has_key_def cell_def less_Suc_eq)
  note spec' = updateOrder_partial_merge[OF ok surjective_pairing t9]
  from spec'[THEN conjunct1, THEN mp, OF none]
  have missing: "fst (updateOrder ''u-9'' only_status demo_orders) = Inl (NotFoundError ''Order'') \<and>
     pedidos_sheet (snd (updateOrder ''u-9'' only_status demo_orders)) = pedidos_sheet demo_orders"
    by simp
  from spec[THEN conjunct2, rule_format, OF i key] ok t1 t9 missing show ?thesis
    by (simp add: demo_orders_def only_status_def rowToOrder_def cell_def or_empty_def)
qed

section \<open>The read-through caches\<close>

lemma fetch_orders_eq:
  "fetch_orders s =
     (if fst (store_call (ValuesGet Pedidos) s)
      then (Inr (decode_orders (pedidos_sheet s)),
            (snd (store_call (ValuesGet Pedidos) s))
              \<lparr>orders_cache := Some (decode_orders (pedidos_sheet s)),
               orders_cacheTime := clock (snd (store_call (ValuesGet Pedidos) s))\<rparr>)
      else (Inl StoreError, snd (store_call (ValuesGet Pedidos) s)))"
  by (simp add: fetch_orders_def values_get_eq Let_def)

lemma fetch_tickets_eq:
  "fetch_tickets s =
     (if fst (store_call (ValuesGet Tickets) s)
      then (Inr (decode_tickets (tickets_sheet s)),
            (snd (store_call (ValuesGet Tickets) s))
              \<lparr>tickets_cache := Some (decode_tickets (tickets_sheet s)),
               tickets_cacheTime := clock (snd (store_call (ValuesGet Tickets) s))\<rparr>)
      else (Inl StoreError, snd (store_call (ValuesGet Tickets) s)))"
  by (simp add: fetch_tickets_def values_get_eq Let_def)

lemma readAllOrders_hit: "orders_fresh s \<Longrightarrow> readAllOrders s = (Inr (the (orders_cache s)), s)"
  by (auto simp: orders_fresh_def readAllOrders_def CACHE_TTL_def Let_def)

lemma readAllOrders_miss: "\<not> orders_fresh s \<Longrightarrow> readAllOrders s = fetch_orders s"
  by (auto simp: orders_fresh_def readAllOrders_def CACHE_TTL_def Let_def split: option.split)

lemma readAllTickets_hit: "tickets_fresh s \<Longrightarrow> readAllTickets s = (Inr (the (tickets_cache s)), s)"
  by (auto simp: tickets_fresh_def readAllTickets_def CACHE_TTL_def Let_def)

lemma readAllTickets_miss: "\<not> tickets_fresh s \<Longrightarrow> readAllTickets s = fetch_tickets s"
  by (auto simp: tickets_fresh_def readAllTickets_def CACHE_TTL_def Let_def split: option.split)

lemma readAllOrders_read:
  assumes "\<not> orders_fresh s"
  shows "requests (snd (readAllOrders s)) = requests s @ [ValuesGet Pedidos]"
    and "pedidos_sheet (snd (readAllOrders s)) = pedidos_sheet s"
    and "tickets_sheet (snd (readAllOrders s)) = tickets_sheet s"
    and "next_ok 1 s \<Longrightarrow> fst (readAllOrders s) = Inr (map rowToOrder (drop 1 (pedidos_sheet s)))"
    and "next_ok 1 s \<Longrightarrow> orders_cache (snd (readAllOrders s)) = Some (map rowToOrder (drop 1 (pedidos_sheet s)))"
    and "next_ok 1 s \<Longrightarrow> orders_cacheTime (snd (readAllOrders s)) = clock (snd (readAllOrders s))"
  using store_call_ok[of 0 s "ValuesGet Pedidos"]
  by (simp_all add: readAllOrders_miss[OF assms] fetch_orders_eq decode_orders_def)

lemma readAllTickets_read:
  assumes "\<not> tickets_fresh s"
  shows "requests (snd (readAllTickets s)) = requests s @ [ValuesGet Tickets]"
    and "pedidos_sheet (snd (readAllTickets s)) = pedidos_sheet s"
    and "tickets_sheet (snd (readAllTickets s)) = tickets_sheet s"
    and "next_ok 1 s \<Longrightarrow> fst (readAllTickets s) =
           Inr (map rowToTicket (filter (\<lambda>r. truthy (cell r 0)) (drop 1 (tickets_sheet s))))"
    and "next_ok 1 s \<Longrightarrow> tickets_cache (snd (readAllTickets s)) =
           Some (map rowToTicket (filter (\<lambda>r. truthy (cell r 0)) (drop 1 (tickets_sheet s))))"
    and "next_ok 1 s \<Longrightarrow> tickets_cacheTime (snd (readAllTickets s)) = clock (snd (readAllTickets s))"
  using store_call_ok[of 0 s "ValuesGet Tickets"]
  by (simp_all add: readAllTickets_miss[OF assms] fetch_tickets_eq decode_tickets_def)

text \<open>
  Claim C9, amended. A read returns the stored snapshot, with no store access and no
  change of state, exactly when a snapshot is present and its age is strictly below five
  minutes; otherwise it calls the store; when the store answers it skips the header row,
  decodes the remaining rows (for the tickets only the rows whose ticket cell is
  non-empty: the others are dropped), records them as the snapshot with the time after
  the call as capture time, and returns them. Invalidation clears the snapshot
  unconditionally and is idempotent.
\<close>

theorem cache_read_through:
  "(orders_cache s = Some c \<and> clock s - orders_cacheTime s < 5 * 60 * 1000 \<longrightarrow>
      readAllOrders s = (Inr c, s)) \<and>
   (\<not> (orders_cache s \<noteq> None \<and> clock s - orders_cacheTime s < 5 * 60 * 1000) \<longrightarrow>
      requests (snd (readAllOrders s)) = requests s @ [ValuesGet Pedidos] \<and>
      (next_ok 1 s \<longrightarrow>
         fst (readAllOrders s) = Inr (map rowToOrder (drop 1 (pedidos_sheet s))) \<and>
         orders_cache (snd (readAllOrders s)) = Some (map rowToOrder (drop 1 (pedidos_sheet s))) \<and>
         orders_cacheTime (snd (readAllOrders s)) = clock (snd (readAllOrders s)))) \<and>
   (tickets_cache s = Some d \<and> clock s - tickets_cacheTime s < 5 * 60 * 1000 \<longrightarrow>
      readAllTickets s = (Inr d, s)) \<and>
   (\<not> (tickets_cache s \<noteq> None \<and> clock s - tickets_cacheTime s < 5 * 60 * 1000) \<longrightarrow>
      requests (snd (readAllTickets s)) = requests s @ [ValuesGet Tickets] \<and>
      (next_ok 1 s \<longrightarrow>
         fst (readAllTickets s) =
           Inr (map rowToTicket (filter (\<lambda>r. truthy (cell r 0)) (drop 1 (tickets_sheet s)))) \<and>
         tickets_cache (snd (readAllTickets s)) =
           Some (map rowToTicket (filter (\<lambda>r. truthy (cell r 0)) (drop 1 (tickets_sheet s)))) \<and>
         tickets_cacheTime (snd (readAllTickets s)) = clock (snd (readAllTickets s)))) \<and>
   orders_cache (orders_invalidateCache s) = None \<and>
   orders_invalidateCache (orders_invalidateCache s) = orders_invalidateCache s \<and>
   tickets_cache (tickets_invalidateCache s) = None \<and>
   tickets_invalidateCache (tickets_invalidateCache s) = tickets_invalidateCache s"
proof (intro conjI impI)
  assume "orders_cache s = Some c \<and> clock s - orders_cacheTime s < 5 * 60 * 1000"
  then show "readAllOrders s = (Inr c, s)"
    using readAllOrders_hit[of s] by (simp add: orders_fresh_def)
next
  assume "tickets_cache s = Some d \<and> clock s - tickets_cacheTime s < 5 * 60 * 1000"
  then show "readAllTickets s = (Inr d, s)"
    using readAllTickets_hit[of s] by (simp add: tickets_fresh_def)
next
  assume "\<not> (orders_cache s \<noteq> None \<and> clock s - orders_cacheTime s < 5 * 60 * 1000)"
  then have miss: "\<not> orders_fresh s" by (simp add: orders_fresh_def)
  show "requests (snd (readAllOrders s)) = requests s @ [ValuesGet Pedidos]"
    by (rule readAllOrders_read(1)[OF miss])
  assume ok: "next_ok 1 s"
  show "fst (readAllOrders s) = Inr (map rowToOrder (drop 1 (pedidos_sheet s)))"
    by (rule readAllOrders_read(4)[OF miss ok])
  show "orders_cache (snd (readAllOrders s)) = Some (map rowToOrder (drop 1 (pedidos_sheet s)))"
    by (rule readAllOrders_read(5)[OF miss ok])
  show "orders_cacheTime (snd (readAllOrders s)) = clock (snd (readAllOrders s))"
    by (rule readAllOrders_read(6)[OF miss ok])
next
  assume "\<not> (tickets_cache s \<noteq> None \<and> clock s - tickets_cacheTime s < 5 * 60 * 1000)"
  then have miss: "\<not> tickets_fresh s" by (simp add: tickets_fresh_def)
  show "requests (snd (readAllTickets s)) = requests s @ [ValuesGet Tickets]"
    by (rule readAllTickets_read(1)[OF miss])
  assume ok: "next_ok 1 s"
  show "fst (readAllTickets s) =
      Inr (map rowToTicket (filter (\<lambda>r. truthy (cell r 0)) (drop 1 (tickets_sheet s))))"
    by (rule readAllTickets_read(4)[OF miss ok])
  show "tickets_cache (snd (readAllTickets s)) =
      Some (map rowToTicket (filter (\<lambda>r. truthy (cell r 0)) (drop 1 (tickets_sheet s))))"
    by (rule readAllTickets_read(5)[OF miss ok])
  show "tickets_cacheTime (snd (readAllTickets s)) = clock (snd (readAllTickets s))"
    by (rule readAllTickets_read(6)[OF miss ok])
next
  show "orders_cache (orders_invalidateCache s) = None" by simp
  show "orders_invalidateCache (orders_invalidateCache s) = orders_invalidateCache s"
    by (simp add: orders_invalidateCache_def)
  show "tickets_cache (tickets_invalidateCache s) = None" by simp
  show "tickets_invalidateCache (tickets_invalidateCache s) = tickets_invalidateCache s"
    by (simp add: tickets_invalidateCache_def)
qed

theorem cache_read_through_witness:
  "readAllOrders demo_cached = (Inr [], demo_cached) \<and>
   requests (snd (readAllOrders demo_orders)) = [ValuesGet Pedidos] \<and>
   map uuid (case fst (readAllOrders demo_orders) of Inr os \<Rightarrow> os | Inl e \<Rightarrow> []) = [''u-1''] \<and>
   fst (readAllTickets demo_orders) =
     Inr [\<lparr>t_ticket = ''11111111111'', t_status = marker\<rparr>,
          \<lparr>t_ticket = ''68637750800'', t_status = []\<rparr>,
          \<lparr>t_ticket = ''22222222222'', t_status = []\<rparr>]"
proof -
  have hit: "orders_cache demo_cached = Some [] \<and>
      clock demo_cached - orders_cacheTime demo_cached < 5 * 60 * 1000"
    by (simp add: demo_cached_def)
  have miss: "\<not> (orders_cache demo_orders \<noteq> None \<and>
      clock demo_orders - orders_cacheTime demo_orders < 5 * 60 * 1000)"
    "\<not> (tickets_cache demo_orders \<noteq> None \<and>
      clock demo_orders - tickets_cacheTime demo_orders < 5 * 60 * 1000)"
    by (simp_all add: demo_orders_def demo_state_def)
  have ok: "next_ok 1 demo_orders"
    by (simp add: next_ok_def demo_orders_def demo_state_def)
  note a = cache_read_through[of demo_cached "[]" "[]", THEN conjunct1, rule_format, OF hit]
  note b = cache_read_through[of demo_orders "[]" "[]", THEN conjunct2, THEN conjunct1, rule_format, OF miss(1)]
  note c = cache_read_through[of demo_orders "[]" "[]", THEN conjunct2, THEN conjunct2, THEN conjunct2,
      THEN conjunct1, rule_format, OF miss(2)]
  from b[THEN conjunct2, rule_format, OF ok]
  have "fst (readAllOrders demo_orders) = Inr (map rowToOrder (drop 1 (pedidos_sheet demo_orders)))"
    by simp
  moreover from c[THEN conjunct2, rule_format, OF ok]
  have "fst (readAllTickets demo_orders) =
      Inr (map rowToTicket (filter (\<lambda>r. truthy (cell r 0)) (drop 1 (tickets_sheet demo_orders))))"
    by simp
  moreover from b have "requests (snd (readAllOrders demo_orders)) = requests demo_orders @ [ValuesGet Pedidos]"
    by simp
  ultimately show ?thesis using a
    by (simp add: demo_orders_def demo_state_def rowToOrder_def rowToTicket_def cell_def
        or_empty_def truthy_def marker_def)
qed

text \<open>
  Claim C9 as stated fails for the tickets: with a blank row in the sheet a fresh read
  does not return the decoding of every row after the header.
\<close>

theorem readAllTickets_counterexample:
  "tickets_cache demo_gap = None \<and> next_ok 1 demo_gap \<and>
   fst (readAllTickets demo_gap) = Inr [\<lparr>t_ticket = ''68637750800'', t_status = []\<rparr>] \<and>
   map rowToTicket (drop 1 (tickets_sheet demo_gap)) =
     [\<lparr>t_ticket = [], t_status = []\<rparr>, \<lparr>t_ticket = ''68637750800'', t_status = []\<rparr>] \<and>
   fst (readAllTickets demo_gap) \<noteq> Inr (map rowToTicket (drop 1 (tickets_sheet demo_gap)))"
  by (simp add: demo_gap_def demo_state_def next_ok_def readAllTickets_def fetch_tickets_def
      decode_tickets_def rowToTicket_def store_defs Let_def)

section \<open>Allocation and order creation, step by step\<close>

lemma available_unassigned: "available r i = (0 < i \<and> unassigned r)"
  by (simp add: available_def unassigned_def)

lemma marked_not_unassigned: "truthy (cell r 0) \<Longrightarrow> \<not> unassigned (write_cells r 1 [marker])"
  using cell_write_cells_status[OF truthy_length, of r marker]
  by (simp add: unassigned_def truthy_def marker_nonempty)

lemma filter_before_first:
  assumes "\<forall>j<i. \<not> available (rows ! j) j" "i \<le> length rows"
  shows "filter unassigned (drop 1 (take i rows)) = []"
proof -
  have "\<not> unassigned x" if "x \<in> set (drop 1 (take i rows))" for x
  proof -
    from that obtain k where k: "k < length (drop 1 (take i rows))" "x = drop 1 (take i rows) ! k"
      by (auto simp: in_set_conv_nth)
    with assms(2) have "Suc k < i" by simp
    with k assms(2) have "x = rows ! Suc k" by simp
    with assms(1) \<open>Suc k < i\<close> show ?thesis by (auto simp: available_unassigned)
  qed
  then show ?thesis by (simp add: filter_empty_conv)
qed

lemma drop_1_append: "xs \<noteq> [] \<Longrightarrow> drop 1 (xs @ ys) = drop 1 xs @ ys"
  by (cases xs) simp_all

lemma avail_mark:
  assumes fi: "findIndex available rows = Some i"
  shows "avail rows = or_empty (cell (rows ! i) 0) # avail (rows[i := write_cells (rows ! i) 1 [marker]])"
proof -
  from findIndex_Some[OF fi] have i: "i < length rows" and av: "available (rows ! i) i"
    and first: "\<forall>j<i. \<not> available (rows ! j) j" by simp_all
  from av have pos: "0 < i" and un: "unassigned (rows ! i)" by (simp_all add: available_unassigned)
  from un have tr: "truthy (cell (rows ! i) 0)" by (simp add: unassigned_def)
  let ?r' = "write_cells (rows ! i) 1 [marker]"
  have split: "rows = take i rows @ rows ! i # drop (Suc i) rows"
    using i by (simp add: id_take_nth_drop[symmetric])
  have upd: "rows[i := ?r'] = take i rows @ ?r' # drop (Suc i) rows"
    using i by (simp add: upd_conv_take_nth_drop)
  have len: "take i rows \<noteq> []" using pos i by (cases rows) auto
  have d1: "drop 1 rows = drop 1 (take i rows) @ rows ! i # drop (Suc i) rows"
  proof -
    have "drop 1 rows = drop 1 (take i rows @ rows ! i # drop (Suc i) rows)"
      using split by simp
    also have "\<dots> = drop 1 (take i rows) @ rows ! i # drop (Suc i) rows"
      using len by (rule drop_1_append)
    finally show ?thesis .
  qed
  have d2: "drop 1 (rows[i := ?r']) = drop 1 (take i rows) @ ?r' # drop (Suc i) rows"
    unfolding upd using len by (rule drop_1_append)
  have pre: "filter unassigned (drop 1 (take i rows)) = []"
    using filter_before_first[OF first] i by simp
  have "avail rows = or_empty (cell (rows ! i) 0) #
      map (\<lambda>r. or_empty (cell r 0)) (filter unassigned (drop (Suc i) rows))"
    unfolding avail_def by (subst d1) (use pre un in simp)
  moreover have "avail (rows[i := ?r']) =
      map (\<lambda>r. or_empty (cell r 0)) (filter unassigned (drop (Suc i) rows))"
    unfolding avail_def by (subst d2) (use pre marked_not_unassigned[OF tr] in simp)
  ultimately show ?thesis by simp
qed

lemma assignAvailableTicket_eq:
  "assignAvailableTicket s =
     (if \<not> fst (store_call (ValuesGet Tickets) s)
      then (Inl StoreError, snd (store_call (ValuesGet Tickets) s))
      else case findIndex available (tickets_sheet s) of
        None \<Rightarrow> (Inl NoTicketsError, snd (store_call (ValuesGet Tickets) s))
      | Some i \<Rightarrow>
          if \<not> fst (store_call (ValuesUpdate Tickets i 1 [marker]) (snd (store_call (ValuesGet Tickets) s)))
          then (Inl StoreError,
                snd (store_call (ValuesUpdate Tickets i 1 [marker]) (snd (store_call (ValuesGet Tickets) s))))
          else (Inr (or_empty (cell (tickets_sheet s ! i) 0)),
                tickets_invalidateCache
                  (put_sheet Tickets ((tickets_sheet s)[i := write_cells (tickets_sheet s ! i) 1 [marker]])
                    (snd (store_call (ValuesUpdate Tickets i 1 [marker])
                       (snd (store_call (ValuesGet Tickets) s)))))))"
proof (cases "findIndex available (tickets_sheet s)")
  case None
  then show ?thesis by (simp add: assignAvailableTicket_def values_get_eq)
next
  case (Some i)
  from findIndex_Some[OF Some] have "i < length (tickets_sheet s)" by simp
  with Some show ?thesis
    by (simp add: assignAvailableTicket_def values_get_eq values_update_eq Let_def)
qed

lemma assignAvailableTicket_avail:
  assumes "assignAvailableTicket s = (r, s')"
  shows "pedidos_sheet s' = pedidos_sheet s \<and>
    (case r of Inl e \<Rightarrow> tickets_sheet s' = tickets_sheet s
     | Inr t \<Rightarrow> avail (tickets_sheet s) = t # avail (tickets_sheet s'))"
proof (cases "findIndex available (tickets_sheet s)")
  case None
  with assms show ?thesis by (auto simp: assignAvailableTicket_eq split: if_splits)
next
  case (Some i)
  from avail_mark[OF Some] assms Some show ?thesis
    by (auto simp: assignAvailableTicket_eq split: if_splits)
qed

lemma allocate_avail:
  assumes "allocate s = (r, s')"
  shows "pedidos_sheet s' = pedidos_sheet s \<and>
    (case r of Inl e \<Rightarrow> tickets_sheet s' = tickets_sheet s
     | Inr t \<Rightarrow> avail (tickets_sheet s) = t # avail (tickets_sheet s'))"
proof (cases "assignAvailableTicket s")
  case (Pair r0 s0)
  from assignAvailableTicket_avail[OF Pair] Pair assms show ?thesis
    by (cases r0) (auto simp: allocate_def split: error.splits)
qed

lemma store_call_fst: "fst (store_call q s) = (\<not> fails_at 0 s)"
  by (cases "replies s") (simp_all add: store_call_def fails_at_def)

lemma fails_at_store_call [simp]: "fails_at k (snd (store_call q s)) = fails_at (Suc k) s"
  by (cases "replies s") (simp_all add: fails_at_def)

lemma fails_at_frame [simp]:
  "fails_at k (put_sheet n rows s) = fails_at k s"
  "fails_at k (tickets_invalidateCache s) = fails_at k s"
  "fails_at k (orders_invalidateCache s) = fails_at k s"
  "fails_at k (s\<lparr>orders_cache := a, orders_cacheTime := b\<rparr>) = fails_at k s"
  "fails_at k (s\<lparr>tickets_cache := c, tickets_cacheTime := d\<rparr>) = fails_at k s"
  by (simp_all add: fails_at_def)

lemma next_ok_fails_at: "next_ok n s = (\<forall>k<n. \<not> fails_at k s)"
proof
  assume a: "next_ok n s"
  show "\<forall>k<n. \<not> fails_at k s"
  proof (intro allI impI notI)
    fix k assume "k < n" "fails_at k s"
    then have "replies s ! k \<in> set (take n (replies s))" "fails (replies s ! k)"
      by (auto simp: fails_at_def in_set_conv_nth intro!: exI[of _ k])
    with a show False by (auto simp: next_ok_def list_all_iff)
  qed
next
  assume a: "\<forall>k<n. \<not> fails_at k s"
  show "next_ok n s"
    unfolding next_ok_def list_all_iff
  proof
    fix r assume "r \<in> set (take n (replies s))"
    then obtain k where "k < length (take n (replies s))" "r = take n (replies s) ! k"
      by (auto simp: in_set_conv_nth)
    then have "k < n" "k < length (replies s)" "r = replies s ! k" by simp_all
    with a show "\<not> fails r" by (auto simp: fails_at_def)
  qed
qed

lemma readAllOrders_invalidated [simp]:
  "readAllOrders (orders_invalidateCache s) = fetch_orders (orders_invalidateCache s)"
  by (simp add: readAllOrders_def)

lemma readAllTickets_invalidated [simp]:
  "readAllTickets (tickets_invalidateCache s) = fetch_tickets (tickets_invalidateCache s)"
  by (simp add: readAllTickets_def)

lemma after_orders_read_fields [simp]:
  "tickets_sheet (after_orders_read s) = tickets_sheet s"
  "pedidos_sheet (after_orders_read s) = pedidos_sheet s"
  "requests (after_orders_read s) = requests s @ [ValuesGet Pedidos]"
  "fails_at k (after_orders_read s) = fails_at (Suc k) s"
  "tickets_cache (after_orders_read s) = tickets_cache s"
  "tickets_cacheTime (after_orders_read s) = tickets_cacheTime s"
  by (simp_all add: after_orders_read_def fetch_orders_eq)

lemma after_orders_read_cache:
  "orders_cache (after_orders_read s) =
     (if fails_at 0 s then None else Some (map rowToOrder (drop 1 (pedidos_sheet s))))"
  by (simp add: after_orders_read_def fetch_orders_eq store_call_fst decode_orders_def)

lemma createOrder_ticket_eq:
  "createOrder_ticket data s =
     (if fails_at 0 s then (Inl StoreError, after_orders_read s)
      else case find_duplicate (normalize_oab (c_numero_oab data)) (decode_orders (pedidos_sheet s)) of
        Some ex \<Rightarrow> (Inr (Some ex, []), after_orders_read s)
      | None \<Rightarrow>
          (case allocate (after_orders_read s) of
             (Inl e, s2) \<Rightarrow> (Inl e, s2)
           | (Inr t, s2) \<Rightarrow> (Inr (None, t), s2)))"
proof (cases "find_duplicate (normalize_oab (c_numero_oab data)) (decode_orders (pedidos_sheet s))")
  case None
  then show ?thesis
    by (simp add: createOrder_ticket_def after_orders_read_def fetch_orders_eq store_call_fst Let_def
        split: prod.split sum.split)
next
  case (Some ex)
  then show ?thesis
    by (simp add: createOrder_ticket_def after_orders_read_def fetch_orders_eq store_call_fst Let_def)
qed

lemma allocate_eq:
  "allocate s =
     (case assignAvailableTicket s of
        (Inl e, s') \<Rightarrow> (Inl NoTicketsError, s')
      | (Inr t, s') \<Rightarrow> (Inr t, s'))"
  by (simp add: allocate_def split: prod.split sum.split error.split)

lemma createOrder_eq:
  "createOrder_task data env s =
     (case createOrder_ticket data s of
        (Inl e, s2) \<Rightarrow> (Inl e, s2)
      | (Inr (ex, t), s2) \<Rightarrow>
          if fails_at 0 s2
          then (Inl StoreError,
                snd (store_call (ValuesAppend Pedidos (orderToRow (new_order data env ex t))) s2))
          else (Inr \<lparr>order = new_order data env ex t,
                      conflict = map_option
                        (\<lambda>x. \<lparr>existing_ticket = ticket x, existing_date = data_solicitacao x\<rparr>) ex\<rparr>,
                orders_invalidateCache
                  (put_sheet Pedidos (pedidos_sheet s2 @ [orderToRow (new_order data env ex t)])
                     (snd (store_call (ValuesAppend Pedidos (orderToRow (new_order data env ex t))) s2)))))"
  by (simp add: createOrder_task_def values_append_eq store_call_fst Let_def
      split: prod.split sum.split)

lemma createOrder_tickets_sheet:
  "tickets_sheet (snd (createOrder_task data env s)) = tickets_sheet (snd (createOrder_ticket data s))"
  by (simp add: createOrder_eq split: prod.split sum.split)

lemma createOrder_snd: "snd (createOrder data env s) = snd (createOrder_task data env s)"
  by (simp add: createOrder_def under_lock_snd)

lemma createOrder_ticket_avail:
  "allocated (fst (createOrder_ticket data s)) @ avail (tickets_sheet (snd (createOrder_ticket data s)))
     = avail (tickets_sheet s)"
proof (cases "allocate (after_orders_read s)")
  case (Pair r s2)
  from allocate_avail[OF Pair] Pair show ?thesis
    by (cases r) (auto simp: createOrder_ticket_eq allocated_def split: option.split)
qed

section \<open>No ticket is handed out twice\<close>

lemma create_all_avail:
  "fst (create_all cs s) @ avail (tickets_sheet (snd (create_all cs s))) = avail (tickets_sheet s)"
proof (induction cs arbitrary: s)
  case Nil
  show ?case by simp
next
  case (Cons c cs)
  obtain data env where c: "c = (data, env)" by (cases c)
  let ?s' = "snd (createOrder data env s)"
  have "fst (create_all (c # cs) s) = allocated (fst (createOrder_ticket data s)) @ fst (create_all cs ?s')"
    by (simp add: c Let_def split: prod.split)
  moreover have "snd (create_all (c # cs) s) = snd (create_all cs ?s')"
    by (simp add: c Let_def split: prod.split)
  moreover have "fst (create_all cs ?s') @ avail (tickets_sheet (snd (create_all cs ?s'))) =
      avail (tickets_sheet ?s')" by (rule Cons.IH)
  moreover have "allocated (fst (createOrder_ticket data s)) @ avail (tickets_sheet ?s') =
      avail (tickets_sheet s)"
    using createOrder_ticket_avail[of data s] by (simp add: createOrder_snd createOrder_tickets_sheet)
  ultimately show ?case by simp
qed

lemma distinct_avail:
  assumes "distinct (map (\<lambda>r. or_empty (cell r 0)) (filter (\<lambda>r. truthy (cell r 0)) (drop 1 rows)))"
  shows "distinct (avail rows)"
proof -
  have "filter unassigned (drop 1 rows) =
      filter (\<lambda>r. \<not> truthy (cell r 1)) (filter (\<lambda>r. truthy (cell r 0)) (drop 1 rows))"
    by (auto simp: unassigned_def intro: filter_cong)
  with assms show ?thesis
    unfolding avail_def by (simp only: distinct_map_filter)
qed

text \<open>
  Claim C1. Given that each ticket value occupies one row of the tickets sheet, the
  tickets that successful allocator calls return during any sequence of order creations
  run one at a time are pairwise distinct: they are, in row order, the first unassigned
  tickets of the sheet, and what the sequence leaves unassigned is the rest, because
  every successful call marks the row it returns before the next call scans.
\<close>

theorem createOrder_tickets_distinct:
  assumes "distinct (map (\<lambda>r. or_empty (cell r 0)) (filter (\<lambda>r. truthy (cell r 0)) (drop 1 (tickets_sheet s))))"
  shows "distinct (fst (create_all cs s)) \<and>
    fst (create_all cs s) @ avail (tickets_sheet (snd (create_all cs s))) = avail (tickets_sheet s)"
proof -
  from distinct_avail[OF assms] have "distinct (avail (tickets_sheet s))" .
  with create_all_avail[of cs s] show ?thesis
    by (metis distinct_append)
qed

theorem createOrder_tickets_distinct_witness:
  "distinct (map (\<lambda>r. or_empty (cell r 0))
      (filter (\<lambda>r. truthy (cell r 0)) (drop 1 (tickets_sheet demo_state)))) \<and>
   distinct (fst (create_all [(demo_data, demo_env), (demo_data, demo_env), (demo_data, demo_env)] demo_state)) \<and>
   fst (create_all [(demo_data, demo_env), (demo_data, demo_env), (demo_data, demo_env)] demo_state) =
     [''68637750800'', ''22222222222'']"
proof -
  have d: "distinct (map (\<lambda>r. or_empty (cell r 0))
      (filter (\<lambda>r. truthy (cell r 0)) (drop 1 (tickets_sheet demo_state))))"
    by (simp add: demo_state_def store_defs)
  have e: "fst (create_all [(demo_data, demo_env), (demo_data, demo_env), (demo_data, demo_env)] demo_state) =
     [''68637750800'', ''22222222222'']"
    by (simp add: demo_state_def demo_data_def demo_env_def allocated_def order_defs store_defs Let_def marker_def)
  from createOrder_tickets_distinct[OF d] d e show ?thesis by blast
qed

section \<open>Duplicate detection on creation\<close>

lemma new_order_simps:
  "new_order data env None t = order_of data env t ''Aprovado''"
  "new_order data env (Some x) t = order_of data env t ''Recusado''"
  by (simp_all add: new_order_def order_of_def)

lemma next_ok_4:
  assumes "next_ok 4 s"
  shows "\<not> fails_at 0 s" "\<not> fails_at (Suc 0) s" "\<not> fails_at (Suc (Suc 0)) s"
    "\<not> fails_at (Suc (Suc (Suc 0))) s"
  using assms by (simp_all add: next_ok_fails_at)

lemma find_duplicate_eq:
  "find_duplicate n (decode_orders rows) =
     (if n \<noteq> [] then find (\<lambda>y. trim (numero_oab y) = n) (map rowToOrder (drop 1 rows)) else None)"
  by (simp add: find_duplicate_def decode_orders_def)

lemma createOrder_duplicate:
  assumes ok: "\<not> fails_at 0 s" "\<not> fails_at (Suc 0) s"
    and n: "normalize_oab (c_numero_oab data) \<noteq> []"
    and x: "find (\<lambda>y. trim (numero_oab y) = normalize_oab (c_numero_oab data))
              (map rowToOrder (drop 1 (pedidos_sheet s))) = Some x"
  shows "createOrder_task data env s =
    (Inr \<lparr>order = order_of data env [] ''Recusado'',
          conflict = Some \<lparr>existing_ticket = ticket x, existing_date = data_solicitacao x\<rparr>\<rparr>,
     orders_invalidateCache
       (put_sheet Pedidos (pedidos_sheet s @ [orderToRow (order_of data env [] ''Recusado'')])
          (snd (store_call (ValuesAppend Pedidos (orderToRow (order_of data env [] ''Recusado'')))
                 (after_orders_read s)))))"
  using ok n x
  by (simp add: createOrder_eq createOrder_ticket_eq find_duplicate_eq new_order_simps)

lemma createOrder_fresh:
  assumes ok: "\<not> fails_at 0 s"
    and n: "normalize_oab (c_numero_oab data) = [] \<or>
         find (\<lambda>y. trim (numero_oab y) = normalize_oab (c_numero_oab data))
              (map rowToOrder (drop 1 (pedidos_sheet s))) = None"
  shows "createOrder_task data env s =
    (case assignAvailableTicket (after_orders_read s) of
       (Inl e, s2) \<Rightarrow> (Inl NoTicketsError, s2)
     | (Inr t, s2) \<Rightarrow>
         if fails_at 0 s2
         then (Inl StoreError,
               snd (store_call (ValuesAppend Pedidos (orderToRow (order_of data env t ''Aprovado''))) s2))
         else (Inr \<lparr>order = order_of data env t ''Aprovado'', conflict = None\<rparr>,
               orders_invalidateCache
                 (put_sheet Pedidos (pedidos_sheet s2 @ [orderToRow (order_of data env t ''Aprovado'')])
                    (snd (store_call (ValuesAppend Pedidos (orderToRow (order_of data env t ''Aprovado''))) s2)))))"
proof -
  from n have "find_duplicate (normalize_oab (c_numero_oab data)) (decode_orders (pedidos_sheet s)) = None"
    by (auto simp: find_duplicate_eq)
  with ok show ?thesis
    by (simp add: createOrder_eq createOrder_ticket_eq allocate_eq new_order_simps
        split: prod.split sum.split)
qed

lemma assignAvailableTicket_Inr:
  assumes "assignAvailableTicket s = (Inr t, s2)"
  shows "pedidos_sheet s2 = pedidos_sheet s \<and> fails_at k s2 = fails_at (Suc (Suc k)) s"
  using assms
  by (auto simp: assignAvailableTicket_eq store_call_fst split: if_splits option.splits)

lemma assignAvailableTicket_Inl:
  assumes "assignAvailableTicket s = (Inl e, s2)"
  shows "pedidos_sheet s2 = pedidos_sheet s \<and> tickets_sheet s2 = tickets_sheet s"
  using assms
  by (auto simp: assignAvailableTicket_eq store_call_fst split: if_splits option.splits)

text \<open>
  Claim C2. Let \<open>n\<close> be the trimmed OAB number of the request. When the store answers
  and the operation settles before the thirty seconds of the write lock have passed: if \<open>n\<close> is non-empty and an order in the sheet has it (trimmed), \<^verbatim>\<open>createOrder\<close> makes
  no call on the tickets sheet, appends the new order with an empty ticket and the status
  \<open>Recusado\<close>, and returns it with a conflict that carries the ticket and the request
  date of the first such order. Otherwise (\<open>n\<close> empty, or no order has it) it runs the
  allocator on the state after the read: a ticket the allocator returns becomes the
  ticket of the appended order, whose status is \<open>Aprovado\<close>, with no conflict; a
  failure of the allocator ends the call with \<open>NoTicketsError\<close> and nothing is appended.
\<close>

theorem createOrder_duplicate_policy:
  assumes "next_ok 4 s" and "createOrder data env s = (r, s')"
    and "clock s' - clock s < LOCK_TIMEOUT_MS"
  shows
    "(\<forall>x. normalize_oab (c_numero_oab data) \<noteq> [] \<and>
          find (\<lambda>y. trim (numero_oab y) = normalize_oab (c_numero_oab data))
            (map rowToOrder (drop 1 (pedidos_sheet s))) = Some x \<longrightarrow>
          r = Inr \<lparr>order = order_of data env [] ''Recusado'',
                   conflict = Some \<lparr>existing_ticket = ticket x, existing_date = data_solicitacao x\<rparr>\<rparr> \<and>
          pedidos_sheet s' = pedidos_sheet s @ [orderToRow (order_of data env [] ''Recusado'')] \<and>
          tickets_sheet s' = tickets_sheet s \<and>
          requests s' = requests s @
            [ValuesGet Pedidos, ValuesAppend Pedidos (orderToRow (order_of data env [] ''Recusado''))]) \<and>
     (normalize_oab (c_numero_oab data) = [] \<or>
        find (\<lambda>y. trim (numero_oab y) = normalize_oab (c_numero_oab data))
          (map rowToOrder (drop 1 (pedidos_sheet s))) = None \<longrightarrow>
        (\<forall>t s2. assignAvailableTicket (after_orders_read s) = (Inr t, s2) \<longrightarrow>
           r = Inr \<lparr>order = order_of data env t ''Aprovado'', conflict = None\<rparr> \<and>
           pedidos_sheet s' = pedidos_sheet s @ [orderToRow (order_of data env t ''Aprovado'')] \<and>
           tickets_sheet s' = tickets_sheet s2 \<and>
           requests s' = requests s2 @ [ValuesAppend Pedidos (orderToRow (order_of data env t ''Aprovado''))]) \<and>
        (\<forall>e s2. assignAvailableTicket (after_orders_read s) = (Inl e, s2) \<longrightarrow>
           r = Inl NoTicketsError \<and> s' = s2 \<and> pedidos_sheet s' = pedidos_sheet s))"
proof -
  from assms(2,3) have task: "createOrder_task data env s = (r, s')"
    unfolding createOrder_def by (rule under_lock_in_time)
  show ?thesis
  proof (intro conjI allI impI)
  fix x
  assume "normalize_oab (c_numero_oab data) \<noteq> [] \<and>
          find (\<lambda>y. trim (numero_oab y) = normalize_oab (c_numero_oab data))
            (map rowToOrder (drop 1 (pedidos_sheet s))) = Some x"
  then have n: "normalize_oab (c_numero_oab data) \<noteq> []"
    and x: "find (\<lambda>y. trim (numero_oab y) = normalize_oab (c_numero_oab data))
            (map rowToOrder (drop 1 (pedidos_sheet s))) = Some x" by simp_all
  note eq = createOrder_duplicate[OF next_ok_4(1,2)[OF assms(1)] n x, of env]
  from eq task show "r = Inr \<lparr>order = order_of data env [] ''Recusado'',
      conflict = Some \<lparr>existing_ticket = ticket x, existing_date = data_solicitacao x\<rparr>\<rparr>"
    by simp
  from eq task show "pedidos_sheet s' = pedidos_sheet s @ [orderToRow (order_of data env [] ''Recusado'')]"
    by auto
  from eq task show "tickets_sheet s' = tickets_sheet s" by auto
  from eq task show "requests s' = requests s @
      [ValuesGet Pedidos, ValuesAppend Pedidos (orderToRow (order_of data env [] ''Recusado''))]"
    by auto
next
  fix t s2
  assume n: "normalize_oab (c_numero_oab data) = [] \<or>
        find (\<lambda>y. trim (numero_oab y) = normalize_oab (c_numero_oab data))
          (map rowToOrder (drop 1 (pedidos_sheet s))) = None"
    and a: "assignAvailableTicket (after_orders_read s) = (Inr t, s2)"
  from assignAvailableTicket_Inr[OF a, of 0] next_ok_4(4)[OF assms(1)]
  have ok2: "\<not> fails_at 0 s2" and p2: "pedidos_sheet s2 = pedidos_sheet s" by simp_all
  note eq = createOrder_fresh[OF next_ok_4(1)[OF assms(1)] n, of env]
  from eq a ok2 task show "r = Inr \<lparr>order = order_of data env t ''Aprovado'', conflict = None\<rparr>"
    by simp
  from eq a ok2 task p2
  show "pedidos_sheet s' = pedidos_sheet s @ [orderToRow (order_of data env t ''Aprovado'')]"
    by auto
  from eq a ok2 task show "tickets_sheet s' = tickets_sheet s2" by auto
  from eq a ok2 task
  show "requests s' = requests s2 @ [ValuesAppend Pedidos (orderToRow (order_of data env t ''Aprovado''))]"
    by auto
next
  fix e s2
  assume n: "normalize_oab (c_numero_oab data) = [] \<or>
        find (\<lambda>y. trim (numero_oab y) = normalize_oab (c_numero_oab data))
          (map rowToOrder (drop 1 (pedidos_sheet s))) = None"
    and a: "assignAvailableTicket (after_orders_read s) = (Inl e, s2)"
  note eq = createOrder_fresh[OF next_ok_4(1)[OF assms(1)] n, of env]
  from eq a task show "r = Inl NoTicketsError" by simp
  from eq a task show "s' = s2" by simp
  with assignAvailableTicket_Inl[OF a] show "pedidos_sheet s' = pedidos_sheet s" by simp
  qed
qed

theorem createOrder_duplicate_policy_witness:
  "next_ok 4 demo_orders \<and>
   clock (snd (createOrder demo_dup demo_env demo_orders)) - clock demo_orders < LOCK_TIMEOUT_MS \<and>
   clock (snd (createOrder demo_data demo_env demo_orders)) - clock demo_orders < LOCK_TIMEOUT_MS \<and>
   fst (createOrder demo_dup demo_env demo_orders) =
     Inr \<lparr>order = order_of demo_dup demo_env [] ''Recusado'',
          conflict = Some \<lparr>existing_ticket = ''11111111111'', existing_date = ''2024-01-01 10:00:00''\<rparr>\<rparr> \<and>
   tickets_sheet (snd (createOrder demo_dup demo_env demo_orders)) = tickets_sheet demo_orders \<and>
   fst (createOrder demo_data demo_env demo_orders) =
     Inr \<lparr>order = order_of demo_data demo_env ''68637750800'' ''Aprovado'', conflict = None\<rparr>"
proof -
  have ok: "next_ok 4 demo_orders"
    by (simp add: next_ok_def demo_orders_def demo_state_def)
  have dup: "normalize_oab (c_numero_oab demo_dup) \<noteq> [] \<and>
      find (\<lambda>y. trim (numero_oab y) = normalize_oab (c_numero_oab demo_dup))
        (map rowToOrder (drop 1 (pedidos_sheet demo_orders))) =
      Some (rowToOrder [''u-1'', ''11111111111'', ''123'', ''Ana'', [], ''2024-01-01 10:00:00'',
          ''2024-01-01 10:00:01'', ''Pendente''])"
    by (simp add: demo_dup_def demo_orders_def demo_state_def order_defs store_defs Let_def)
  have fresh: "normalize_oab (c_numero_oab demo_data) = [] \<or>
      find (\<lambda>y. trim (numero_oab y) = normalize_oab (c_numero_oab demo_data))
        (map rowToOrder (drop 1 (pedidos_sheet demo_orders))) = None"
    by (simp add: demo_data_def normalize_oab_def or_empty_def)
  have "fst (assignAvailableTicket (after_orders_read demo_orders)) = Inr ''68637750800''"
    by (simp add: after_orders_read_def demo_orders_def demo_state_def order_defs store_defs marker_def Let_def)
  then have a: "assignAvailableTicket (after_orders_read demo_orders) =
      (Inr ''68637750800'', snd (assignAvailableTicket (after_orders_read demo_orders)))"
    by (metis prod.collapse)
  have t1: "clock (snd (createOrder demo_dup demo_env demo_orders)) - clock demo_orders < LOCK_TIMEOUT_MS"
    by (simp add: demo_dup_def demo_env_def demo_orders_def demo_state_def order_defs store_defs
        marker_def Let_def)
  have t2: "clock (snd (createOrder demo_data demo_env demo_orders)) - clock demo_orders < LOCK_TIMEOUT_MS"
    by (simp add: demo_data_def demo_env_def demo_orders_def demo_state_def order_defs store_defs
        marker_def Let_def)
  note s1 = createOrder_duplicate_policy[OF ok surjective_pairing t1]
  note s2 = createOrder_duplicate_policy[OF ok surjective_pairing t2]
  from s1[THEN conjunct1, rule_format, OF dup]
  have "fst (createOrder demo_dup demo_env demo_orders) =
     Inr \<lparr>order = order_of demo_dup demo_env [] ''Recusado'',
          conflict = Some \<lparr>existing_ticket = ''11111111111'', existing_date = ''2024-01-01 10:00:00''\<rparr>\<rparr>"
    "tickets_sheet (snd (createOrder demo_dup demo_env demo_orders)) = tickets_sheet demo_orders"
    by (simp_all add: rowToOrder_def cell_def or_empty_def)
  moreover from s2[THEN conjunct2, rule_format, OF fresh, THEN conjunct1, rule_format, OF a]
  have "fst (createOrder demo_data demo_env demo_orders) =
     Inr \<lparr>order = order_of demo_data demo_env ''68637750800'' ''Aprovado'', conflict = None\<rparr>"
    by simp
  ultimately show ?thesis using ok t1 t2 by simp
qed

section \<open>Creation when the tickets are exhausted\<close>

lemma no_unassigned_findIndex:
  assumes "\<forall>r\<in>set (drop 1 rows). truthy (cell r 0) \<longrightarrow> truthy (cell r 1)"
  shows "findIndex available rows = None"
proof (rule findIndex_none, intro allI impI)
  fix j assume j: "j < length rows"
  show "\<not> available (rows ! j) j"
  proof (cases j)
    case 0
    then show ?thesis by (simp add: available_def)
  next
    case (Suc k)
    with j have "rows ! j \<in> set (drop 1 rows)"
      by (auto simp: in_set_conv_nth intro!: exI[of _ k])
    with assms show ?thesis by (auto simp: available_def)
  qed
qed

lemma createOrder_task_no_tickets:
  assumes "next_ok 1 s"
    and "\<forall>r\<in>set (drop 1 (tickets_sheet s)). truthy (cell r 0) \<longrightarrow> truthy (cell r 1)"
    and "normalize_oab (c_numero_oab data) = [] \<or>
         (\<forall>y\<in>set (map rowToOrder (drop 1 (pedidos_sheet s))).
            trim (numero_oab y) \<noteq> normalize_oab (c_numero_oab data))"
  shows "fst (createOrder_task data env s) = Inl NoTicketsError \<and>
    pedidos_sheet (snd (createOrder_task data env s)) = pedidos_sheet s \<and>
    tickets_sheet (snd (createOrder_task data env s)) = tickets_sheet s \<and>
    requests (snd (createOrder_task data env s)) = requests s @ [ValuesGet Pedidos, ValuesGet Tickets]"
proof -
  from assms(1) have ok: "\<not> fails_at 0 s" by (simp add: next_ok_fails_at)
  from assms(3) have n: "normalize_oab (c_numero_oab data) = [] \<or>
      find (\<lambda>y. trim (numero_oab y) = normalize_oab (c_numero_oab data))
        (map rowToOrder (drop 1 (pedidos_sheet s))) = None"
    by (auto simp: find_None_iff)
  from no_unassigned_findIndex[OF assms(2)]
  have fi: "findIndex available (tickets_sheet s) = None" .
  show ?thesis
    by (simp add: createOrder_fresh[OF ok n] assignAvailableTicket_eq fi)
qed

text \<open>
  Claim C5. In a store where no ticket row has an empty status (a ticket row is a row
  after the header with a non-empty ticket cell; blank rows may be there), \<^verbatim>\<open>createOrder\<close>
  on a request whose trimmed OAB number is empty or matches no order (the read of the
  orders having succeeded, and the operation settling before the thirty seconds of the
  write lock have passed) fails with \<open>NoTicketsError\<close>; it made the two reads and no
  append, and both sheets are unchanged.
\<close>

theorem createOrder_no_tickets:
  assumes "next_ok 1 s"
    and "\<forall>r\<in>set (drop 1 (tickets_sheet s)). truthy (cell r 0) \<longrightarrow> truthy (cell r 1)"
    and "normalize_oab (c_numero_oab data) = [] \<or>
         (\<forall>y\<in>set (map rowToOrder (drop 1 (pedidos_sheet s))).
            trim (numero_oab y) \<noteq> normalize_oab (c_numero_oab data))"
    and "clock (snd (createOrder data env s)) - clock s < LOCK_TIMEOUT_MS"
  shows "fst (createOrder data env s) = Inl NoTicketsError \<and>
    pedidos_sheet (snd (createOrder data env s)) = pedidos_sheet s \<and>
    tickets_sheet (snd (createOrder data env s)) = tickets_sheet s \<and>
    requests (snd (createOrder data env s)) = requests s @ [ValuesGet Pedidos, ValuesGet Tickets]"
proof -
  have "createOrder data env s = (fst (createOrder data env s), snd (createOrder data env s))"
    by simp
  from this assms(4) have "createOrder_task data env s =
      (fst (createOrder data env s), snd (createOrder data env s))"
    unfolding createOrder_def by (rule under_lock_in_time)
  then have "fst (createOrder_task data env s) = fst (createOrder data env s)"
    and "snd (createOrder_task data env s) = snd (createOrder data env s)" by simp_all
  with createOrder_task_no_tickets[OF assms(1-3), of env] show ?thesis by simp
qed

theorem createOrder_no_tickets_witness:
  "next_ok 1 demo_full \<and>
   tickets_sheet demo_full ! 2 = [] \<and>
   clock (snd (createOrder demo_data demo_env demo_full)) - clock demo_full < LOCK_TIMEOUT_MS \<and>
   fst (createOrder demo_data demo_env demo_full) = Inl NoTicketsError \<and>
   pedidos_sheet (snd (createOrder demo_data demo_env demo_full)) = pedidos_sheet demo_full"
proof -
  have ok: "next_ok 1 demo_full"
    by (simp add: next_ok_def demo_full_def demo_state_def)
  have full: "\<forall>r\<in>set (drop 1 (tickets_sheet demo_full)). truthy (cell r 0) \<longrightarrow> truthy (cell r 1)"
    by (simp add: demo_full_def demo_state_def truthy_def cell_def marker_def)
  have fresh: "normalize_oab (c_numero_oab demo_data) = [] \<or>
      (\<forall>y\<in>set (map rowToOrder (drop 1 (pedidos_sheet demo_full))).
         trim (numero_oab y) \<noteq> normalize_oab (c_numero_oab demo_data))"
    by (simp add: demo_data_def normalize_oab_def or_empty_def)
  have tm: "clock (snd (createOrder demo_data demo_env demo_full)) - clock demo_full < LOCK_TIMEOUT_MS"
    by (simp add: demo_data_def demo_env_def demo_full_def demo_state_def order_defs store_defs
        marker_def Let_def)
  have blank: "tickets_sheet demo_full ! 2 = []"
    by (simp add: demo_full_def)
  from createOrder_no_tickets[OF ok full fresh tm] ok blank tm show ?thesis by simp
qed

section \<open>Rejected store calls\<close>

lemma some_call_failed_iff: "some_call_failed s s' = (\<exists>k<calls_made s s'. fails_at k s)"
  by (auto simp: some_call_failed_def list_ex_iff)

lemma values_get_eq':
  "values_get n s =
     (if fails_at 0 s then Inl StoreError else Inr (get_sheet n s), snd (store_call (ValuesGet n) s))"
  by (simp add: values_get_eq store_call_fst)

lemma values_append_eq':
  "values_append n r s =
     (if fails_at 0 s then (Inl StoreError, snd (store_call (ValuesAppend n r) s))
      else (Inr (), put_sheet n (get_sheet n s @ [r]) (snd (store_call (ValuesAppend n r) s))))"
  by (simp add: values_append_eq store_call_fst)

lemma values_update_eq':
  "i < length (get_sheet n s) \<Longrightarrow> values_update n i c vs s =
     (if fails_at 0 s then (Inl StoreError, snd (store_call (ValuesUpdate n i c vs) s))
      else (Inr (), put_sheet n ((get_sheet n s)[i := write_cells (get_sheet n s ! i) c vs])
                   (snd (store_call (ValuesUpdate n i c vs) s))))"
  by (simp add: values_update_eq store_call_fst)

lemma delete_row_eq:
  "delete_row n i s =
     (if fails_at 0 s then (Inl StoreError, snd (store_call (DeleteRow n i) s))
      else (Inr (), put_sheet n (take i (get_sheet n s) @ drop (Suc i) (get_sheet n s))
                   (snd (store_call (DeleteRow n i) s))))"
proof (cases "store_call (DeleteRow n i) s")
  case (Pair ok s')
  have "get_sheet n s' = get_sheet n s" "ok = (\<not> fails_at 0 s)"
    using store_call_get_sheet[of n "DeleteRow n i" s] store_call_fst[of "DeleteRow n i" s] Pair
    by simp_all
  with Pair show ?thesis by (simp add: delete_row_def)
qed

lemma fetch_tickets_eq':
  "fetch_tickets s =
     (if fails_at 0 s then (Inl StoreError, snd (store_call (ValuesGet Tickets) s))
      else (Inr (decode_tickets (tickets_sheet s)),
            (snd (store_call (ValuesGet Tickets) s))
              \<lparr>tickets_cache := Some (decode_tickets (tickets_sheet s)),
               tickets_cacheTime := clock (snd (store_call (ValuesGet Tickets) s))\<rparr>))"
  by (simp add: fetch_tickets_eq store_call_fst)

lemma less_calls:
  "(k < Suc 0) = (k = 0)"
  "(k < (2::nat)) = (k = 0 \<or> k = Suc 0)"
  "(k < (3::nat)) = (k = 0 \<or> k = Suc 0 \<or> k = Suc (Suc 0))"
  "(k < (4::nat)) = (k = 0 \<or> k = Suc 0 \<or> k = Suc (Suc 0) \<or> k = Suc (Suc (Suc 0)))"
  by auto

lemmas failed_defs = some_call_failed_iff calls_made_def less_calls

lemma createTicket_failed:
  assumes "createTicket_task t s = (r, s')" "some_call_failed s s'"
  shows "r = Inl StoreError"
  using assms
  by (auto simp: createTicket_task_def fetch_tickets_eq' values_append_eq' failed_defs split: if_splits)

lemma updateTicket_failed:
  assumes "updateTicket_task a b s = (r, s')" "some_call_failed s s'"
  shows "r = Inl StoreError"
proof (cases "findIndex (has_key a) (tickets_sheet s)")
  case None
  with assms show ?thesis
    by (auto simp: updateTicket_task_def values_get_eq' failed_defs
        split: if_splits)
next
  case (Some i)
  from findIndex_Some[OF Some] have "i < length (tickets_sheet s)" by simp
  with assms Some show ?thesis
    by (auto simp: updateTicket_task_def values_get_eq' values_update_eq' failed_defs Let_def split: if_splits)
qed

lemma updateOrder_failed:
  assumes "updateOrder_task a data s = (r, s')" "some_call_failed s s'"
  shows "r = Inl StoreError"
proof (cases "findIndex (has_key a) (pedidos_sheet s)")
  case None
  with assms show ?thesis
    by (auto simp: updateOrder_task_def values_get_eq' failed_defs
        split: if_splits)
next
  case (Some i)
  from findIndex_Some[OF Some] have "i < length (pedidos_sheet s)" by simp
  with assms Some show ?thesis
    by (auto simp: updateOrder_task_def values_get_eq' values_update_eq' failed_defs Let_def split: if_splits)
qed

lemma assignAvailableTicket_failed:
  assumes "assignAvailableTicket s = (r, s')" "some_call_failed s s'"
  shows "r = Inl StoreError"
  using assms
  by (auto simp: assignAvailableTicket_eq store_call_fst failed_defs
      split: if_splits option.splits)

lemma fails_at_sheetId [simp]:
  "fails_at k (s\<lparr>tickets_cachedSheetId := a\<rparr>) = fails_at k s"
  "fails_at k (s\<lparr>orders_cachedSheetId := b\<rparr>) = fails_at k s"
  by (simp_all add: fails_at_def)

lemma get_sheet_sheetId [simp]:
  "get_sheet n (s\<lparr>tickets_cachedSheetId := a\<rparr>) = get_sheet n s"
  "get_sheet n (s\<lparr>orders_cachedSheetId := b\<rparr>) = get_sheet n s"
  by (simp_all add: get_sheet_def split: sheet_name.split)

lemma tickets_getSheetId_eq:
  "tickets_getSheetId s =
     (case tickets_cachedSheetId s of
        Some i \<Rightarrow> (Inr i, s)
      | None \<Rightarrow>
          if fails_at 0 s then (Inl StoreError, snd (store_call GetProperties s))
          else (case tickets_sheetId s of
                  None \<Rightarrow> (Inl SheetNotFound, snd (store_call GetProperties s))
                | Some i \<Rightarrow> (Inr i, (snd (store_call GetProperties s))\<lparr>tickets_cachedSheetId := Some i\<rparr>)))"
proof (cases "store_call GetProperties s")
  case (Pair ok s')
  have "tickets_sheetId s' = tickets_sheetId s" "ok = (\<not> fails_at 0 s)"
    using store_call_fields(3)[of GetProperties s] store_call_fst[of GetProperties s] Pair
    by simp_all
  with Pair show ?thesis
    by (simp add: tickets_getSheetId_def split: option.split)
qed

lemma orders_getSheetId_eq:
  "orders_getSheetId s =
     (case orders_cachedSheetId s of
        Some i \<Rightarrow> (Inr i, s)
      | None \<Rightarrow>
          if fails_at 0 s then (Inl StoreError, snd (store_call GetProperties s))
          else (case pedidos_sheetId s of
                  None \<Rightarrow> (Inl SheetNotFound, snd (store_call GetProperties s))
                | Some i \<Rightarrow> (Inr i, (snd (store_call GetProperties s))\<lparr>orders_cachedSheetId := Some i\<rparr>)))"
proof (cases "store_call GetProperties s")
  case (Pair ok s')
  have "pedidos_sheetId s' = pedidos_sheetId s" "ok = (\<not> fails_at 0 s)"
    using store_call_fields(4)[of GetProperties s] store_call_fst[of GetProperties s] Pair
    by simp_all
  with Pair show ?thesis
    by (simp add: orders_getSheetId_def split: option.split)
qed

lemma invalidate_sheetId [simp]:
  "tickets_cachedSheetId (tickets_invalidateCache s) = tickets_cachedSheetId s"
  "orders_cachedSheetId (orders_invalidateCache s) = orders_cachedSheetId s"
  "tickets_sheetId (tickets_invalidateCache s) = tickets_sheetId s"
  "pedidos_sheetId (orders_invalidateCache s) = pedidos_sheetId s"
  by (simp_all add: tickets_invalidateCache_def orders_invalidateCache_def)

lemma deleteTicket_failed:
  assumes "deleteTicket_task t s = (r, s')" "some_call_failed s s'"
  shows "r = Inl StoreError"
  using assms
  by (auto simp: deleteTicket_task_def values_get_eq' tickets_getSheetId_eq delete_row_eq failed_defs
      split: if_splits option.splits)

lemma deleteOrder_failed:
  assumes "deleteOrder_task u s = (r, s')" "some_call_failed s s'"
  shows "r = Inl StoreError"
  using assms
  by (auto simp: deleteOrder_task_def values_get_eq' orders_getSheetId_eq delete_row_eq failed_defs
      split: if_splits option.splits)

lemma createOrder_failed:
  assumes "createOrder_task data env s = (r, s')" "some_call_failed s s'"
  shows "r = Inl (if on_tickets (last (requests s')) then NoTicketsError else StoreError)"
  using assms
  by (auto simp: createOrder_eq createOrder_ticket_eq allocate_eq assignAvailableTicket_eq
      store_call_fst failed_defs on_tickets_def
      split: if_splits option.splits)

lemma createTicket_delivered:
  assumes "createTicket t s = (r, s')" "some_call_failed s s'"
  shows "delivered s s' r StoreError"
  using assms(1) unfolding createTicket_def
  by (rule under_lock_delivered) (rule createTicket_failed[OF _ assms(2)])

lemma updateTicket_delivered:
  assumes "updateTicket a b s = (r, s')" "some_call_failed s s'"
  shows "delivered s s' r StoreError"
  using assms(1) unfolding updateTicket_def
  by (rule under_lock_delivered) (rule updateTicket_failed[OF _ assms(2)])

lemma deleteTicket_delivered:
  assumes "deleteTicket t s = (r, s')" "some_call_failed s s'"
  shows "delivered s s' r StoreError"
  using assms(1) unfolding deleteTicket_def
  by (rule under_lock_delivered) (rule deleteTicket_failed[OF _ assms(2)])

lemma updateOrder_delivered:
  assumes "updateOrder u data s = (r, s')" "some_call_failed s s'"
  shows "delivered s s' r StoreError"
  using assms(1) unfolding updateOrder_def
  by (rule under_lock_delivered) (rule updateOrder_failed[OF _ assms(2)])

lemma deleteOrder_delivered:
  assumes "deleteOrder u s = (r, s')" "some_call_failed s s'"
  shows "delivered s s' r StoreError"
  using assms(1) unfolding deleteOrder_def
  by (rule under_lock_delivered) (rule deleteOrder_failed[OF _ assms(2)])

lemma createOrder_delivered:
  assumes "createOrder data env s = (r, s')" "some_call_failed s s'"
  shows "delivered s s' r (if on_tickets (last (requests s')) then NoTicketsError else StoreError)"
  using assms(1) unfolding createOrder_def
  by (rule under_lock_delivered) (rule createOrder_failed[OF _ assms(2)])




section \<open>The cache after a rejected write\<close>

lemmas kind_defs = is_append_def is_update_def is_delete_def

lemma readAllTickets_served:
  "tickets_cache s = Some snap \<Longrightarrow> c - tickets_cacheTime s < CACHE_TTL \<Longrightarrow>
     readAllTickets (s\<lparr>clock := c\<rparr>) = (Inr snap, s\<lparr>clock := c\<rparr>)"
  by (simp add: readAllTickets_def)

lemma readAllOrders_served:
  "orders_cache s = Some snap \<Longrightarrow> c - orders_cacheTime s < CACHE_TTL \<Longrightarrow>
     readAllOrders (s\<lparr>clock := c\<rparr>) = (Inr snap, s\<lparr>clock := c\<rparr>)"
  by (simp add: readAllOrders_def)

lemma readAllTickets_absent:
  "tickets_cache s = None \<Longrightarrow> readAllTickets (s\<lparr>clock := c\<rparr>) = fetch_tickets (s\<lparr>clock := c\<rparr>)"
  by (simp add: readAllTickets_def)

lemma readAllOrders_absent:
  "orders_cache s = None \<Longrightarrow> readAllOrders (s\<lparr>clock := c\<rparr>) = fetch_orders (s\<lparr>clock := c\<rparr>)"
  by (simp add: readAllOrders_def)

lemma store_call_cacheTime [simp]:
  "c \<le> clock s \<Longrightarrow> c \<le> clock (put_sheet n rows s)"
  "c \<le> clock s \<Longrightarrow> c \<le> clock (tickets_invalidateCache s)"
  by simp_all

lemma createTicket_append_failed:
  assumes "createTicket_task t s = (r, s')" "some_call_failed s s'" "is_append (last (requests s'))"
  shows "r = Inl StoreError \<and> tickets_cache s' = Some (decode_tickets (tickets_sheet s)) \<and>
    clock s \<le> tickets_cacheTime s' \<and> tickets_cacheTime s' \<le> clock s'"
  using assms
  by (auto simp: createTicket_task_def fetch_tickets_eq' values_append_eq' failed_defs kind_defs
      split: if_splits)

lemma after_orders_read_time:
  "\<not> fails_at 0 s \<Longrightarrow>
     orders_cacheTime (after_orders_read s) = clock (after_orders_read s) \<and>
     clock s \<le> clock (after_orders_read s)"
  by (simp add: after_orders_read_def fetch_orders_eq store_call_fst)

lemma assignAvailableTicket_orders_cache:
  assumes "assignAvailableTicket s = (r, s')"
  shows "orders_cache s' = orders_cache s \<and> orders_cacheTime s' = orders_cacheTime s \<and>
    clock s \<le> clock s'"
  using assms
  by (auto simp: assignAvailableTicket_eq split: if_splits option.splits)

lemma createOrder_append_failed:
  assumes "createOrder_task data env s = (r, s')" "some_call_failed s s'" "is_append (last (requests s'))"
  shows "r = Inl StoreError \<and> orders_cache s' = Some (decode_orders (pedidos_sheet s)) \<and>
    clock s \<le> orders_cacheTime s' \<and> orders_cacheTime s' \<le> clock s'"
proof (cases "assignAvailableTicket (after_orders_read s)")
  case (Pair ra sa)
  note a = assignAvailableTicket_orders_cache[OF Pair]
  show ?thesis
  proof (cases "fails_at 0 s")
    case True
    with assms show ?thesis
      by (auto simp: createOrder_eq createOrder_ticket_eq failed_defs kind_defs)
  next
    case False
    note t = after_orders_read_time[OF False]
    from assms Pair a t False show ?thesis
      by (auto simp: createOrder_eq createOrder_ticket_eq allocate_eq assignAvailableTicket_eq
          store_call_fst failed_defs kind_defs after_orders_read_cache decode_orders_def
          split: if_splits option.splits)
  qed
qed

lemma createOrder_append_consumes:
  assumes "createOrder_task data env s = (r, s')" "some_call_failed s s'" "is_append (last (requests s'))"
    and "find_duplicate (normalize_oab (c_numero_oab data)) (decode_orders (pedidos_sheet s)) = None"
  shows "\<exists>t. avail (tickets_sheet s) = t # avail (tickets_sheet s')"
proof -
  from assms have "\<exists>t. allocated (fst (createOrder_ticket data s)) = [t]"
    by (auto simp: createOrder_eq createOrder_ticket_eq allocate_eq assignAvailableTicket_eq
        store_call_fst failed_defs kind_defs allocated_def
        split: if_splits option.splits)
  then obtain t where "allocated (fst (createOrder_ticket data s)) = [t]" ..
  with createOrder_ticket_avail[of data s] createOrder_tickets_sheet[of data env s] assms(1)
  show ?thesis by (auto intro!: exI[of _ t])
qed

lemma createOrder_update_failed:
  assumes "createOrder_task data env s = (r, s')" "some_call_failed s s'" "is_update (last (requests s'))"
  shows "r = Inl NoTicketsError \<and> tickets_cache s' = tickets_cache s \<and>
    tickets_cacheTime s' = tickets_cacheTime s"
  using assms
  by (auto simp: createOrder_eq createOrder_ticket_eq allocate_eq assignAvailableTicket_eq
      store_call_fst failed_defs kind_defs
      split: if_splits option.splits)

lemma updateTicket_update_failed:
  assumes "updateTicket_task a b s = (r, s')" "some_call_failed s s'" "is_update (last (requests s'))"
  shows "r = Inl StoreError \<and> tickets_cache s' = None"
proof (cases "findIndex (has_key a) (tickets_sheet s)")
  case None
  with assms show ?thesis
    by (auto simp: updateTicket_task_def values_get_eq' failed_defs kind_defs split: if_splits)
next
  case (Some i)
  from findIndex_Some[OF Some] have "i < length (tickets_sheet s)" by simp
  with assms Some show ?thesis
    by (auto simp: updateTicket_task_def values_get_eq' values_update_eq' failed_defs kind_defs
        Let_def split: if_splits)
qed

lemma updateOrder_update_failed:
  assumes "updateOrder_task a data s = (r, s')" "some_call_failed s s'" "is_update (last (requests s'))"
  shows "r = Inl StoreError \<and> orders_cache s' = None"
proof (cases "findIndex (has_key a) (pedidos_sheet s)")
  case None
  with assms show ?thesis
    by (auto simp: updateOrder_task_def values_get_eq' failed_defs kind_defs split: if_splits)
next
  case (Some i)
  from findIndex_Some[OF Some] have "i < length (pedidos_sheet s)" by simp
  with assms Some show ?thesis
    by (auto simp: updateOrder_task_def values_get_eq' values_update_eq' failed_defs kind_defs
        Let_def split: if_splits)
qed

lemma cache_sheetId [simp]:
  "tickets_cache (s\<lparr>tickets_cachedSheetId := a\<rparr>) = tickets_cache s"
  "orders_cache (s\<lparr>orders_cachedSheetId := b\<rparr>) = orders_cache s"
  by simp_all

lemma deleteTicket_delete_failed:
  assumes "deleteTicket_task t s = (r, s')" "some_call_failed s s'" "is_delete (last (requests s'))"
  shows "r = Inl StoreError \<and> tickets_cache s' = None"
  using assms
  by (auto simp: deleteTicket_task_def values_get_eq' tickets_getSheetId_eq delete_row_eq failed_defs
      kind_defs split: if_splits option.splits)

lemma deleteOrder_delete_failed:
  assumes "deleteOrder_task u s = (r, s')" "some_call_failed s s'" "is_delete (last (requests s'))"
  shows "r = Inl StoreError \<and> orders_cache s' = None"
  using assms
  by (auto simp: deleteOrder_task_def values_get_eq' orders_getSheetId_eq delete_row_eq failed_defs
      kind_defs split: if_splits option.splits)

lemma createTicket_append_rejected:
  assumes "createTicket t s = (r, s')" "some_call_failed s s'" "is_append (last (requests s'))"
  shows "delivered s s' r StoreError \<and>
    tickets_cache s' = Some (decode_tickets (tickets_sheet s)) \<and>
    clock s \<le> tickets_cacheTime s' \<and> tickets_cacheTime s' \<le> clock s' \<and>
    (\<forall>c. c - tickets_cacheTime s' < CACHE_TTL \<longrightarrow>
       readAllTickets (s'\<lparr>clock := c\<rparr>) = (Inr (decode_tickets (tickets_sheet s)), s'\<lparr>clock := c\<rparr>))"
proof -
  from assms(1) have task: "createTicket_task t s = (fst (createTicket_task t s), s')"
    unfolding createTicket_def by (rule under_lock_task)
  note f = createTicket_append_failed[OF task assms(2,3)]
  from assms(1) have "delivered s s' r StoreError"
    unfolding createTicket_def
    by (rule under_lock_delivered) (rule createTicket_failed[OF _ assms(2)])
  with f readAllTickets_served[of s' "decode_tickets (tickets_sheet s)"] show ?thesis by blast
qed

lemma createOrder_append_rejected:
  assumes "createOrder data env s = (r, s')" "some_call_failed s s'" "is_append (last (requests s'))"
  shows "delivered s s' r StoreError \<and>
    orders_cache s' = Some (decode_orders (pedidos_sheet s)) \<and>
    clock s \<le> orders_cacheTime s' \<and> orders_cacheTime s' \<le> clock s' \<and>
    (\<forall>c. c - orders_cacheTime s' < CACHE_TTL \<longrightarrow>
       readAllOrders (s'\<lparr>clock := c\<rparr>) = (Inr (decode_orders (pedidos_sheet s)), s'\<lparr>clock := c\<rparr>)) \<and>
    (find_duplicate (normalize_oab (c_numero_oab data)) (decode_orders (pedidos_sheet s)) = None \<longrightarrow>
       (\<exists>t. avail (tickets_sheet s) = t # avail (tickets_sheet s')))"
proof -
  from assms(1) have task: "createOrder_task data env s = (fst (createOrder_task data env s), s')"
    unfolding createOrder_def by (rule under_lock_task)
  note f = createOrder_append_failed[OF task assms(2,3)]
  have "delivered s s' r StoreError"
    using assms(1) unfolding createOrder_def
  proof (rule under_lock_delivered)
    fix r0 assume "createOrder_task data env s = (r0, s')"
    from createOrder_append_failed[OF this assms(2,3)] show "r0 = Inl StoreError" by simp
  qed
  with f readAllOrders_served[of s' "decode_orders (pedidos_sheet s)"]
    createOrder_append_consumes[OF task assms(2,3)]
  show ?thesis by blast
qed

lemma createOrder_update_rejected:
  assumes "createOrder data env s = (r, s')" "some_call_failed s s'" "is_update (last (requests s'))"
  shows "delivered s s' r NoTicketsError \<and> tickets_cache s' = tickets_cache s \<and>
    tickets_cacheTime s' = tickets_cacheTime s"
proof -
  from assms(1) have task: "createOrder_task data env s = (fst (createOrder_task data env s), s')"
    unfolding createOrder_def by (rule under_lock_task)
  note f = createOrder_update_failed[OF task assms(2,3)]
  have "delivered s s' r NoTicketsError"
    using assms(1) unfolding createOrder_def
  proof (rule under_lock_delivered)
    fix r0 assume "createOrder_task data env s = (r0, s')"
    from createOrder_update_failed[OF this assms(2,3)] show "r0 = Inl NoTicketsError" by simp
  qed
  with f show ?thesis by blast
qed

lemma updateTicket_update_rejected:
  assumes "updateTicket a b s = (r, s')" "some_call_failed s s'" "is_update (last (requests s'))"
  shows "delivered s s' r StoreError \<and> tickets_cache s' = None \<and>
    (\<forall>c. readAllTickets (s'\<lparr>clock := c\<rparr>) = fetch_tickets (s'\<lparr>clock := c\<rparr>))"
proof -
  from assms(1) have task: "updateTicket_task a b s = (fst (updateTicket_task a b s), s')"
    unfolding updateTicket_def by (rule under_lock_task)
  note f = updateTicket_update_failed[OF task assms(2,3)]
  from assms(1) have "delivered s s' r StoreError"
    unfolding updateTicket_def
    by (rule under_lock_delivered) (rule updateTicket_failed[OF _ assms(2)])
  with f readAllTickets_absent[of s'] show ?thesis by blast
qed

lemma updateOrder_update_rejected:
  assumes "updateOrder u data s = (r, s')" "some_call_failed s s'" "is_update (last (requests s'))"
  shows "delivered s s' r StoreError \<and> orders_cache s' = None \<and>
    (\<forall>c. readAllOrders (s'\<lparr>clock := c\<rparr>) = fetch_orders (s'\<lparr>clock := c\<rparr>))"
proof -
  from assms(1) have task: "updateOrder_task u data s = (fst (updateOrder_task u data s), s')"
    unfolding updateOrder_def by (rule under_lock_task)
  note f = updateOrder_update_failed[OF task assms(2,3)]
  from assms(1) have "delivered s s' r StoreError"
    unfolding updateOrder_def
    by (rule under_lock_delivered) (rule updateOrder_failed[OF _ assms(2)])
  with f readAllOrders_absent[of s'] show ?thesis by blast
qed

lemma deleteTicket_delete_rejected:
  assumes "deleteTicket t s = (r, s')" "some_call_failed s s'" "is_delete (last (requests s'))"
  shows "delivered s s' r StoreError \<and> tickets_cache s' = None \<and>
    (\<forall>c. readAllTickets (s'\<lparr>clock := c\<rparr>) = fetch_tickets (s'\<lparr>clock := c\<rparr>))"
proof -
  from assms(1) have task: "deleteTicket_task t s = (fst (deleteTicket_task t s), s')"
    unfolding deleteTicket_def by (rule under_lock_task)
  note f = deleteTicket_delete_failed[OF task assms(2,3)]
  from assms(1) have "delivered s s' r StoreError"
    unfolding deleteTicket_def
    by (rule under_lock_delivered) (rule deleteTicket_failed[OF _ assms(2)])
  with f readAllTickets_absent[of s'] show ?thesis by blast
qed

lemma deleteOrder_delete_rejected:
  assumes "deleteOrder u s = (r, s')" "some_call_failed s s'" "is_delete (last (requests s'))"
  shows "delivered s s' r StoreError \<and> orders_cache s' = None \<and>
    (\<forall>c. readAllOrders (s'\<lparr>clock := c\<rparr>) = fetch_orders (s'\<lparr>clock := c\<rparr>))"
proof -
  from assms(1) have task: "deleteOrder_task u s = (fst (deleteOrder_task u s), s')"
    unfolding deleteOrder_def by (rule under_lock_task)
  note f = deleteOrder_delete_failed[OF task assms(2,3)]
  from assms(1) have "delivered s s' r StoreError"
    unfolding deleteOrder_def
    by (rule under_lock_delivered) (rule deleteOrder_failed[OF _ assms(2)])
  with f readAllOrders_absent[of s'] show ?thesis by blast
qed




section \<open>Serialization by the write lock\<close>

lemma expected_append: "expected b (xs @ ys) = expected b xs @ expected (b + length xs) ys"
  by (induction xs arbitrary: b) simp_all

lemma expected_queued: "\<forall>x\<in>set xs. phase x = Queued \<Longrightarrow> expected b xs = []"
  by (induction xs arbitrary: b) (simp_all add: segments_def)

lemma expected_split:
  assumes "k < length sls"
  shows "expected b sls =
    expected b (take k sls) @ segments (b + k) (sls ! k) @ expected (b + Suc k) (drop (Suc k) sls)"
proof -
  have "sls = take k sls @ sls ! k # drop (Suc k) sls"
    using assms by (simp add: id_take_nth_drop[symmetric])
  then have "expected b sls = expected b (take k sls @ sls ! k # drop (Suc k) sls)" by simp
  also have "\<dots> = expected b (take k sls) @ segments (b + k) (sls ! k) @
      expected (b + Suc k) (drop (Suc k) sls)"
    using assms by (simp add: expected_append min_def)
  finally show ?thesis .
qed

lemma expected_update:
  assumes "k < length sls"
  shows "expected b (sls[k := y]) =
    expected b (take k sls) @ segments (b + k) y @ expected (b + Suc k) (drop (Suc k) sls)"
  using assms expected_split[of k "sls[k := y]" b] by simp

lemma ordered_later_queued:
  assumes "ordered sls" "k < length sls" "phase (sls ! k) \<noteq> Finished"
  shows "\<forall>x\<in>set (drop (Suc k) sls). phase x = Queued"
proof
  fix x assume "x \<in> set (drop (Suc k) sls)"
  then obtain i where i: "i < length (drop (Suc k) sls)" "x = drop (Suc k) sls ! i"
    by (auto simp: in_set_conv_nth)
  then have j: "Suc k + i < length sls" "x = sls ! (Suc k + i)" by simp_all
  show "phase x = Queued"
  proof (rule ccontr)
    assume "phase x \<noteq> Queued"
    with assms(1) j have "phase (sls ! k) = Finished"
      unfolding ordered_def by (metis less_add_Suc1 add_Suc)
    with assms(3) show False by simp
  qed
qed

lemma trace_update_same:
  assumes "k < length sls" "segments k y = segments k (sls ! k)"
  shows "expected 0 (sls[k := y]) = expected 0 sls"
  using assms expected_update[of k sls 0 y] expected_split[of k sls 0] by simp

lemma trace_update_extend:
  assumes "k < length sls" "ordered sls" "phase (sls ! k) \<noteq> Finished"
    "segments k y = segments k (sls ! k) @ [p]"
  shows "expected 0 (sls[k := y]) = expected 0 sls @ [p]"
proof -
  from ordered_later_queued[OF assms(2,1,3)]
  have "expected (Suc k) (drop (Suc k) sls) = []" by (rule expected_queued)
  with assms(1,4) expected_update[of k sls 0 y] expected_split[of k sls 0] show ?thesis by simp
qed

lemma good_update:
  assumes "\<forall>sl\<in>set sls. good sl" "good y"
  shows "\<forall>sl\<in>set (sls[k := y]). good sl"
  using assms set_update_subset_insert[of sls k y] by auto

lemma ordered_update_same:
  assumes "ordered sls" "k < length sls" "phase y = phase (sls ! k)"
  shows "ordered (sls[k := y])"
proof -
  have ph: "phase (sls[k := y] ! i) = phase (sls ! i)" if "i < length sls" for i
    using that assms(3) by (cases "i = k") simp_all
  show ?thesis
    unfolding ordered_def
  proof (intro allI impI)
    fix i j
    assume i: "i < length (sls[k := y])" and q: "phase (sls[k := y] ! i) \<noteq> Queued" and j: "j < i"
    from i q have "phase (sls ! i) \<noteq> Queued" using ph[of i] by simp
    with assms(1) i j have "phase (sls ! j) = Finished" unfolding ordered_def by simp
    with i j show "phase (sls[k := y] ! j) = Finished" using ph[of j] by simp
  qed
qed

lemma ordered_update_active:
  assumes "ordered sls" "k < length sls" "\<forall>j<k. phase (sls ! j) = Finished"
    "phase (sls ! k) \<noteq> Finished"
  shows "ordered (sls[k := y])"
  unfolding ordered_def
proof (intro allI impI)
  fix i j
  assume i: "i < length (sls[k := y])" and ph: "phase (sls[k := y] ! i) \<noteq> Queued" and j: "j < i"
  from i have i': "i < length sls" by simp
  consider "i < k" | "i = k" | "k < i" by linarith
  then show "phase (sls[k := y] ! j) = Finished"
  proof cases
    case 1
    with assms(3) j i' show ?thesis by (simp add: nth_list_update)
  next
    case 2
    with assms(3) j i' show ?thesis by (simp add: nth_list_update)
  next
    case 3
    with ph i' have "phase (sls ! i) \<noteq> Queued" by (simp add: nth_list_update)
    with assms(1) i' 3 have "phase (sls ! k) = Finished" unfolding ordered_def by blast
    with assms(4) show ?thesis by simp
  qed
qed

lemma ordered_before:
  assumes "ordered sls" "k < length sls" "phase (sls ! k) \<noteq> Queued"
  shows "\<forall>j<k. phase (sls ! j) = Finished"
  using assms unfolding ordered_def by blast

lemma segments_cong: "phase y = phase x \<Longrightarrow> fn y = fn x \<Longrightarrow> segments k y = segments k x"
  by (simp add: segments_def split: phase.split)

lemma inv_Submit: "inv l \<Longrightarrow> inv (withWriteLock f l)"
proof -
  assume a: "inv l"
  let ?new = "\<lparr>fn = f, phase = Queued, link = False, result = None, timer = None, fired = False\<rparr>"
  have g: "good ?new" by (simp add: good_def)
  have o: "ordered (slots l @ [?new])"
    unfolding ordered_def
  proof (intro allI impI)
    fix k j
    assume k: "k < length (slots l @ [?new])" and q: "phase ((slots l @ [?new]) ! k) \<noteq> Queued"
      and j: "j < k"
    from k q have k': "k < length (slots l)" by (cases "k = length (slots l)") auto
    with q have "phase (slots l ! k) \<noteq> Queued" by (simp add: nth_append)
    with a k' j have "phase (slots l ! j) = Finished" unfolding inv_def ordered_def by blast
    with j k' show "phase ((slots l @ [?new]) ! j) = Finished" by (simp add: nth_append)
  qed
  have t: "expected 0 (slots l @ [?new]) = expected 0 (slots l)"
    by (simp add: expected_append segments_def)
  from a g o t show ?thesis by (auto simp: inv_def withWriteLock_def)
qed

lemma inv_Start:
  assumes a: "inv l" and k: "k < length (slots l)" and q: "phase (slots l ! k) = Queued"
    and c: "chain_fulfilled k l"
  shows "inv (l\<lparr>slots := (slots l)[k := (slots l ! k)
                         \<lparr>phase := Running (awaits (fn (slots l ! k))),
                          timer := Some (now l + LOCK_TIMEOUT_MS)\<rparr>],
               trace := trace l @ [(k, 0)]\<rparr>)"
proof -
  let ?old = "slots l ! k"
  let ?new = "?old\<lparr>phase := Running (awaits (fn ?old)), timer := Some (now l + LOCK_TIMEOUT_MS)\<rparr>"
  from a k have go: "good ?old" unfolding inv_def by simp
  from a have oo: "ordered (slots l)" unfolding inv_def by simp
  from go q have g: "good ?new" by (auto simp: good_def)
  have before: "\<forall>j<k. phase (slots l ! j) = Finished"
  proof (cases k)
    case 0
    then show ?thesis by simp
  next
    case (Suc m)
    with c have "link (slots l ! m)" by (simp add: chain_fulfilled_def)
    moreover from a k Suc have "good (slots l ! m)" unfolding inv_def by simp
    ultimately have fin: "phase (slots l ! m) = Finished" by (simp add: good_def)
    then have "phase (slots l ! m) \<noteq> Queued" by simp
    moreover from k Suc have "m < length (slots l)" by simp
    ultimately have "\<forall>j<m. phase (slots l ! j) = Finished"
      using ordered_before[OF oo] by blast
    with fin Suc show ?thesis by (auto simp: less_Suc_eq)
  qed
  from q have nf: "phase ?old \<noteq> Finished" by simp
  have o: "ordered ((slots l)[k := ?new])"
    by (rule ordered_update_active[OF oo k before nf])
  have "segments k ?new = segments k ?old @ [(k, 0)]"
    using q by (simp add: segments_def)
  from trace_update_extend[OF k oo nf this] a
  have t: "expected 0 ((slots l)[k := ?new]) = trace l @ [(k, 0)]" by (simp add: inv_def)
  from a g o t show ?thesis
    using good_update[of "slots l" ?new k] by (simp add: inv_def)
qed

lemma inv_Resume:
  assumes a: "inv l" and k: "k < length (slots l)" and q: "phase (slots l ! k) = Running (Suc n)"
  shows "inv (l\<lparr>slots := (slots l)[k := (slots l ! k)\<lparr>phase := Running n\<rparr>],
               trace := trace l @ [(k, awaits (fn (slots l ! k)) - n)]\<rparr>)"
proof -
  let ?old = "slots l ! k"
  let ?new = "?old\<lparr>phase := Running n\<rparr>"
  from a k have go: "good ?old" unfolding inv_def by simp
  from a have oo: "ordered (slots l)" unfolding inv_def by simp
  from go q have le: "Suc n \<le> awaits (fn ?old)" by (simp add: good_def)
  from go q le have g: "good ?new" by (auto simp: good_def)
  from q have nq: "phase ?old \<noteq> Queued" and nf: "phase ?old \<noteq> Finished" by simp_all
  have o: "ordered ((slots l)[k := ?new])"
    by (rule ordered_update_active[OF oo k ordered_before[OF oo k nq] nf])
  have "Suc (awaits (fn ?old) - Suc n) = awaits (fn ?old) - n" using le by simp
  then have "segments k ?new = segments k ?old @ [(k, awaits (fn ?old) - n)]"
    using q by (simp add: segments_def)
  from trace_update_extend[OF k oo nf this] a
  have t: "expected 0 ((slots l)[k := ?new]) = trace l @ [(k, awaits (fn ?old) - n)]"
    by (simp add: inv_def)
  from a g o t show ?thesis
    using good_update[of "slots l" ?new k] by (simp add: inv_def)
qed

lemma inv_Settle:
  assumes a: "inv l" and k: "k < length (slots l)" and q: "phase (slots l ! k) = Running 0"
  shows "inv (l\<lparr>slots := (slots l)[k := (settle (outcome (fn (slots l ! k))) (slots l ! k))
                         \<lparr>phase := Finished, timer := None\<rparr>]\<rparr>)"
proof -
  let ?old = "slots l ! k"
  let ?new = "(settle (outcome (fn ?old)) ?old)\<lparr>phase := Finished, timer := None\<rparr>"
  from a k have go: "good ?old" unfolding inv_def by simp
  from a have oo: "ordered (slots l)" unfolding inv_def by simp
  from go q have g: "good ?new"
    by (auto simp: good_def settle_def split: option.splits if_splits)
  from q have nq: "phase ?old \<noteq> Queued" and nf: "phase ?old \<noteq> Finished" by simp_all
  have o: "ordered ((slots l)[k := ?new])"
    by (rule ordered_update_active[OF oo k ordered_before[OF oo k nq] nf])
  have "segments k ?new = segments k ?old"
    using q by (simp add: segments_def settle_def split: option.splits)
  from trace_update_same[OF k this] a
  have t: "expected 0 ((slots l)[k := ?new]) = trace l" by (simp add: inv_def)
  from a g o t show ?thesis
    using good_update[of "slots l" ?new k] by (simp add: inv_def)
qed

lemma inv_Chain:
  assumes a: "inv l" and k: "k < length (slots l)" and q: "phase (slots l ! k) = Finished"
  shows "inv (l\<lparr>slots := (slots l)[k := (slots l ! k)\<lparr>link := True\<rparr>]\<rparr>)"
proof -
  let ?old = "slots l ! k"
  let ?new = "?old\<lparr>link := True\<rparr>"
  from a k have go: "good ?old" unfolding inv_def by simp
  from a have oo: "ordered (slots l)" unfolding inv_def by simp
  from go q have g: "good ?new" by (auto simp: good_def)
  have o: "ordered ((slots l)[k := ?new])"
    by (rule ordered_update_same[OF oo k]) simp
  have "segments k ?new = segments k ?old" by (rule segments_cong) simp_all
  from trace_update_same[OF k this] a
  have t: "expected 0 ((slots l)[k := ?new]) = trace l" by (simp add: inv_def)
  from a g o t show ?thesis
    using good_update[of "slots l" ?new k] by (simp add: inv_def)
qed

lemma inv_Timeout:
  assumes a: "inv l" and k: "k < length (slots l)" and q: "timer (slots l ! k) = Some d"
  shows "inv (l\<lparr>slots := (slots l)[k := (settle (Inl WriteTimeout) (slots l ! k))
                                   \<lparr>timer := None, fired := True\<rparr>]\<rparr>)"
proof -
  let ?old = "slots l ! k"
  let ?new = "(settle (Inl WriteTimeout) ?old)\<lparr>timer := None, fired := True\<rparr>"
  from a k have go: "good ?old" unfolding inv_def by simp
  from a have oo: "ordered (slots l)" unfolding inv_def by simp
  from go q have g: "good ?new"
    by (auto simp: good_def settle_def split: option.splits if_splits)
  have o: "ordered ((slots l)[k := ?new])"
    by (rule ordered_update_same[OF oo k]) (simp add: settle_def split: option.splits)
  have "segments k ?new = segments k ?old"
    by (rule segments_cong) (simp_all add: settle_def split: option.splits)
  from trace_update_same[OF k this] a
  have t: "expected 0 ((slots l)[k := ?new]) = trace l" by (simp add: inv_def)
  from a g o t show ?thesis
    using good_update[of "slots l" ?new k] by (simp add: inv_def)
qed

lemma inv_step:
  assumes "inv l" "step e l = Some l'"
  shows "inv l'"
proof (cases e)
  case (Submit f)
  with assms show ?thesis by (auto simp: step_def inv_Submit)
next
  case (Start k)
  with assms show ?thesis by (auto simp: step_def inv_Start split: if_splits)
next
  case (Resume k)
  with assms show ?thesis
    by (auto simp: step_def inv_Resume split: if_splits phase.splits nat.splits)
next
  case (Settle k)
  with assms show ?thesis by (auto simp: step_def inv_Settle split: if_splits)
next
  case (Chain k)
  with assms show ?thesis by (auto simp: step_def inv_Chain split: if_splits)
next
  case (Timeout k)
  with assms show ?thesis
    by (auto simp: step_def inv_Timeout split: if_splits option.splits)
next
  case (Tick d)
  with assms show ?thesis by (auto simp: step_def inv_def)
qed

lemma inv_run: "inv l \<Longrightarrow> run evs l = Some l' \<Longrightarrow> inv l'"
proof (induction evs arbitrary: l)
  case Nil
  then show ?case by simp
next
  case (Cons e es)
  then show ?case by (auto split: option.splits dest: inv_step)
qed

lemma inv_init: "inv createWriteLock"
  by (simp add: inv_def createWriteLock_def ordered_def)

lemma work_update:
  "k < length xs \<Longrightarrow> work y < work (xs ! k) \<Longrightarrow>
     sum_list (map work (xs[k := y])) < sum_list (map work xs)"
proof (induction xs arbitrary: k)
  case Nil
  then show ?case by simp
next
  case (Cons x xs)
  then show ?case by (cases k) auto
qed

lemma same_update:
  "k < length xs \<Longrightarrow> f y = f (xs ! k) \<Longrightarrow> map f (xs[k := y]) = map f xs"
  by (simp add: map_update list_update_same_conv)

lemma progress:
  assumes a: "inv l" and nf: "\<exists>sl\<in>set (slots l). phase sl \<noteq> Finished"
  shows "\<exists>e l'. internal e \<and> step e l = Some l' \<and>
      sum_list (map work (slots l')) < sum_list (map work (slots l)) \<and>
      map fn (slots l') = map fn (slots l) \<and> map fired (slots l') = map fired (slots l)"
proof -
  from nf have "\<exists>k. k < length (slots l) \<and> phase (slots l ! k) \<noteq> Finished"
    by (auto simp: in_set_conv_nth)
  then obtain k where k: "k < length (slots l)" "phase (slots l ! k) \<noteq> Finished"
    and least: "\<forall>j<k. \<not> (j < length (slots l) \<and> phase (slots l ! j) \<noteq> Finished)"
    using exists_least_iff[of "\<lambda>k. k < length (slots l) \<and> phase (slots l ! k) \<noteq> Finished"]
    by blast
  let ?old = "slots l ! k"
  from a k(1) have go: "good ?old" unfolding inv_def by simp
  show ?thesis
  proof (cases "phase ?old")
    case Finished
    with k(2) show ?thesis by simp
  next
    case (Running n)
    show ?thesis
    proof (cases n)
      case 0
      let ?new = "(settle (outcome (fn ?old)) ?old)\<lparr>phase := Finished, timer := None\<rparr>"
      have s: "step (Settle k) l = Some (l\<lparr>slots := (slots l)[k := ?new]\<rparr>)"
        using k(1) Running 0 by (simp add: step_def)
      have w: "work ?new < work ?old"
        using Running 0 by (simp add: work_def settle_def split: option.splits)
      have f: "fn ?new = fn ?old" "fired ?new = fired ?old"
        by (simp_all add: settle_def split: option.splits)
      from s work_update[OF k(1) w] same_update[OF k(1) f(1)] same_update[OF k(1) f(2)]
      show ?thesis by (intro exI[of _ "Settle k"] exI[of _ "l\<lparr>slots := (slots l)[k := ?new]\<rparr>"])
          (simp add: internal_def)
    next
      case (Suc m)
      let ?new = "?old\<lparr>phase := Running m\<rparr>"
      let ?l' = "l\<lparr>slots := (slots l)[k := ?new], trace := trace l @ [(k, awaits (fn ?old) - m)]\<rparr>"
      have s: "step (Resume k) l = Some ?l'"
        using k(1) Running Suc by (simp add: step_def)
      have w: "work ?new < work ?old"
        using Running Suc by (simp add: work_def)
      have f: "fn ?new = fn ?old" "fired ?new = fired ?old" by simp_all
      from s work_update[OF k(1) w] same_update[OF k(1) f(1)] same_update[OF k(1) f(2)]
      show ?thesis by (intro exI[of _ "Resume k"] exI[of _ ?l']) (simp add: internal_def)
    qed
  next
    case Queued
    show ?thesis
    proof (cases "chain_fulfilled k l")
      case True
      let ?new = "?old\<lparr>phase := Running (awaits (fn ?old)), timer := Some (now l + LOCK_TIMEOUT_MS)\<rparr>"
      let ?l' = "l\<lparr>slots := (slots l)[k := ?new], trace := trace l @ [(k, 0)]\<rparr>"
      have s: "step (Start k) l = Some ?l'"
        using k(1) Queued True by (simp add: step_def)
      have w: "work ?new < work ?old"
        using Queued by (simp add: work_def)
      have f: "fn ?new = fn ?old" "fired ?new = fired ?old" by simp_all
      from s work_update[OF k(1) w] same_update[OF k(1) f(1)] same_update[OF k(1) f(2)]
      show ?thesis by (intro exI[of _ "Start k"] exI[of _ ?l']) (simp add: internal_def)
    next
      case False
      then obtain m where m: "k = Suc m" "\<not> link (slots l ! m)"
        by (auto simp: chain_fulfilled_def split: nat.splits)
      with k(1) have ml: "m < length (slots l)" by simp
      from least m(1) ml have fin: "phase (slots l ! m) = Finished" by auto
      let ?om = "slots l ! m"
      let ?new = "?om\<lparr>link := True\<rparr>"
      let ?l' = "l\<lparr>slots := (slots l)[m := ?new]\<rparr>"
      have s: "step (Chain m) l = Some ?l'"
        using ml fin m(2) by (simp add: step_def)
      have w: "work ?new < work ?om"
        using m(2) fin by (simp add: work_def)
      have f: "fn ?new = fn ?om" "fired ?new = fired ?om" by simp_all
      from s work_update[OF ml w] same_update[OF ml f(1)] same_update[OF ml f(2)]
      show ?thesis by (intro exI[of _ "Chain m"] exI[of _ ?l']) (simp add: internal_def)
    qed
  qed
qed

lemma completes:
  assumes "inv l"
  shows "\<exists>evs l'. list_all internal evs \<and> run evs l = Some l' \<and>
      (\<forall>sl\<in>set (slots l'). phase sl = Finished) \<and>
      map fn (slots l') = map fn (slots l) \<and> map fired (slots l') = map fired (slots l)"
  using assms
proof (induction "sum_list (map work (slots l))" arbitrary: l rule: less_induct)
  case less
  show ?case
  proof (cases "\<exists>sl\<in>set (slots l). phase sl \<noteq> Finished")
    case False
    then show ?thesis
      by (intro exI[of _ "[]"] exI[of _ l]) simp
  next
    case True
    from progress[OF less.prems True] obtain e l1 where e: "internal e" "step e l = Some l1"
      "sum_list (map work (slots l1)) < sum_list (map work (slots l))"
      "map fn (slots l1) = map fn (slots l)" "map fired (slots l1) = map fired (slots l)"
      by blast
    from inv_step[OF less.prems e(2)] have "inv l1" .
    from less.hyps[OF e(3) this] obtain evs l' where r: "list_all internal evs"
      "run evs l1 = Some l'" "\<forall>sl\<in>set (slots l'). phase sl = Finished"
      "map fn (slots l') = map fn (slots l1)" "map fired (slots l') = map fired (slots l1)"
      by blast
    from e r show ?thesis
      by (intro exI[of _ "e # evs"] exI[of _ l']) simp
  qed
qed

lemma expected_sorted:
  "sorted (map fst (expected b xs)) \<and> (\<forall>p\<in>set (expected b xs). b \<le> fst p)"
proof (induction xs arbitrary: b)
  case Nil
  show ?case by simp
next
  case (Cons x xs)
  have seg: "\<forall>p\<in>set (segments b x). fst p = b"
    by (auto simp: segments_def split: phase.splits)
  then have "map fst (segments b x) = replicate (length (segments b x)) b"
    by (simp add: map_replicate_const[symmetric] cong: map_cong)
  then have s1: "sorted (map fst (segments b x))" by simp
  from Cons.IH[of "Suc b"] have s2: "sorted (map fst (expected (Suc b) xs))"
    and ge: "\<forall>p\<in>set (expected (Suc b) xs). Suc b \<le> fst p" by simp_all
  from seg ge have "\<forall>p\<in>set (segments b x). \<forall>q\<in>set (expected (Suc b) xs). fst p \<le> fst q"
    by fastforce
  with s1 s2 have "sorted (map fst (segments b x @ expected (Suc b) xs))"
    by (simp add: sorted_append)
  moreover from seg ge have "\<forall>p\<in>set (segments b x @ expected (Suc b) xs). b \<le> fst p"
    by fastforce
  ultimately show ?case by simp
qed

text \<open>
  Claim C4, amended. In every state that a lock instance reaches, under every schedule:
  the segments of tasks that have run are those of the first call, then those of the
  second, and so on in the order of the calls, all segments of a finished task and an
  initial part for the one in flight; a call whose callback has started has only finished
  calls before it, so no two tasks are in flight together. The promise returned to a
  caller is pending until its own task has finished or its own timeout has fired; it is
  then settled with the timeout failure if the timeout fired first, and with the outcome
  of its own task otherwise, so a failure of a task rejects the promise of that caller
  and no other. From every such state the events of the lock alone can finish every
  queued task, whatever failed before.
\<close>

theorem withWriteLock_serializes:
  assumes "run evs createWriteLock = Some l"
  shows "trace l = expected 0 (slots l) \<and>
    sorted (map fst (trace l)) \<and>
    (\<forall>k<length (slots l). phase (slots l ! k) \<noteq> Queued \<longrightarrow>
       (\<forall>j<k. phase (slots l ! j) = Finished)) \<and>
    (\<forall>k<length (slots l). result (slots l ! k) =
       (if fired (slots l ! k) then Some (Inl WriteTimeout)
        else if phase (slots l ! k) = Finished then Some (outcome (fn (slots l ! k))) else None)) \<and>
    (\<exists>evs' l'. list_all internal evs' \<and> run evs' l = Some l' \<and>
       (\<forall>sl\<in>set (slots l'). phase sl = Finished) \<and>
       map fn (slots l') = map fn (slots l) \<and> map fired (slots l') = map fired (slots l))"
proof -
  from inv_run[OF inv_init assms] have i: "inv l" .
  then have t: "trace l = expected 0 (slots l)" by (simp add: inv_def)
  moreover from t have "sorted (map fst (trace l))"
    using expected_sorted[of 0 "slots l"] by simp
  moreover from i have "\<forall>k<length (slots l). phase (slots l ! k) \<noteq> Queued \<longrightarrow>
       (\<forall>j<k. phase (slots l ! j) = Finished)"
    by (simp add: inv_def ordered_def)
  moreover have "\<forall>k<length (slots l). result (slots l ! k) =
       (if fired (slots l ! k) then Some (Inl WriteTimeout)
        else if phase (slots l ! k) = Finished then Some (outcome (fn (slots l ! k))) else None)"
  proof (intro allI impI)
    fix k assume "k < length (slots l)"
    with i have "good (slots l ! k)" by (simp add: inv_def)
    then show "result (slots l ! k) =
       (if fired (slots l ! k) then Some (Inl WriteTimeout)
        else if phase (slots l ! k) = Finished then Some (outcome (fn (slots l ! k))) else None)"
      by (simp add: good_def)
  qed
  moreover note completes[OF i]
  ultimately show ?thesis by blast
qed

lemmas lock_defs = step_def withWriteLock_def createWriteLock_def settle_def chain_fulfilled_def
  LOCK_TIMEOUT_MS_def

theorem withWriteLock_serializes_witness:
  "trace_after demo_schedule = Some [(0, 0), (0, 1), (1, 0)] \<and>
   results_after demo_schedule = Some [Some (Inl StoreError), Some (Inr ''ok'')] \<and>
   sorted (map fst (the (trace_after demo_schedule)))"
proof -
  have r: "trace_after demo_schedule = Some [(0, 0), (0, 1), (1, 0)]"
    "results_after demo_schedule = Some [Some (Inl StoreError), Some (Inr ''ok'')]"
    by (simp_all add: trace_after_def results_after_def demo_schedule_def lock_defs)
  then obtain l where l: "run demo_schedule createWriteLock = Some l"
    by (auto simp: trace_after_def)
  from withWriteLock_serializes[OF l] have "sorted (map fst (trace l))" by blast
  with l have "sorted (map fst (the (trace_after demo_schedule)))"
    by (simp add: trace_after_def)
  with r show ?thesis by simp
qed

text \<open>
  Claim C4 as stated fails on the timeout: a task that fails after the thirty seconds
  leaves the promise of its caller rejected with the timeout failure, not with its own.
\<close>

theorem withWriteLock_timeout_counterexample:
  "phases_after late_failure = Some [Finished] \<and>
   outcomes_after late_failure = Some [Inl StoreError] \<and>
   results_after late_failure = Some [Some (Inl WriteTimeout)]"
  by (simp add: phases_after_def outcomes_after_def results_after_def late_failure_def lock_defs)

section \<open>The operations and the lock\<close>

text \<open>
  What an operation under the lock delivers is what the lock delivers for one call whose
  task takes the time the store calls of the operation took.
\<close>

lemma run_resumes:
  assumes "slots l = [sl]" "phase sl = Running k"
  shows "\<exists>l'. run (replicate k (Resume 0) @ es) l = run es l' \<and>
     slots l' = [sl\<lparr>phase := Running 0\<rparr>] \<and> now l' = now l"
  using assms
proof (induction k arbitrary: l sl)
  case 0
  then show ?case by (intro exI[of _ l]) simp
next
  case (Suc k)
  let ?l1 = "l\<lparr>slots := [sl\<lparr>phase := Running k\<rparr>], trace := trace l @ [(0, awaits (fn sl) - k)]\<rparr>"
  from Suc.prems have st: "step (Resume 0) l = Some ?l1"
    by (simp add: step_def)
  have "slots ?l1 = [sl\<lparr>phase := Running k\<rparr>]" "phase (sl\<lparr>phase := Running k\<rparr>) = Running k"
    by simp_all
  from Suc.IH[OF this] obtain l' where
    "run (replicate k (Resume 0) @ es) ?l1 = run es l'"
    "slots l' = [sl\<lparr>phase := Running 0\<rparr>]" "now l' = now ?l1" by auto
  with st show ?case by (intro exI[of _ l']) simp
qed

lemma single_call_result:
  "results_after (single_call n out d) =
     Some [Some (if LOCK_TIMEOUT_MS \<le> int d then Inl WriteTimeout else out)]"
proof (cases "LOCK_TIMEOUT_MS \<le> int d")
  case True
  let ?sl = "\<lparr>fn = \<lparr>awaits = n, outcome = out\<rparr>, phase = Running n, link = False,
              result = Some (Inl WriteTimeout), timer = None, fired = True\<rparr>"
  let ?l = "\<lparr>slots = [?sl], now = int d, trace = [(0, 0)]\<rparr>"
  have pre: "run (single_call n out d) createWriteLock = run (replicate n (Resume 0) @ [Settle 0]) ?l"
    using True by (simp add: single_call_def step_def withWriteLock_def createWriteLock_def
        settle_def chain_fulfilled_def)
  from run_resumes[of ?l ?sl n "[Settle 0]"] obtain l' where
    "run (replicate n (Resume 0) @ [Settle 0]) ?l = run [Settle 0] l'"
    "slots l' = [?sl\<lparr>phase := Running 0\<rparr>]" by auto
  with pre True show ?thesis
    by (simp add: results_after_def step_def settle_def)
next
  case False
  let ?sl = "\<lparr>fn = \<lparr>awaits = n, outcome = out\<rparr>, phase = Running n, link = False,
              result = None, timer = Some LOCK_TIMEOUT_MS, fired = False\<rparr>"
  let ?l = "\<lparr>slots = [?sl], now = int d, trace = [(0, 0)]\<rparr>"
  have pre: "run (single_call n out d) createWriteLock = run (replicate n (Resume 0) @ [Settle 0]) ?l"
    using False by (simp add: single_call_def step_def withWriteLock_def createWriteLock_def
        settle_def chain_fulfilled_def)
  from run_resumes[of ?l ?sl n "[Settle 0]"] obtain l' where
    "run (replicate n (Resume 0) @ [Settle 0]) ?l = run [Settle 0] l'"
    "slots l' = [?sl\<lparr>phase := Running 0\<rparr>]" by auto
  with pre False show ?thesis
    by (simp add: results_after_def step_def settle_def)
qed

lemma under_lock_single_call:
  "results_after (single_call n (fst (task s)) (nat (clock (snd (task s)) - clock s))) =
     Some [Some (fst (under_lock task s))]"
proof -
  have "(LOCK_TIMEOUT_MS \<le> int (nat (clock (snd (task s)) - clock s))) =
      (LOCK_TIMEOUT_MS \<le> clock (snd (task s)) - clock s)"
    by (simp add: LOCK_TIMEOUT_MS_def)
  then show ?thesis by (simp add: single_call_result under_lock_eq)
qed

end
